theory Spec2Isabelle
  imports Complex_Main "HOL-Library.Char_ord" "HOL-Library.List_Lexorder" "HOL-Library.Word"
begin

unbundle bit_operations_syntax

section \<open>Rate-limited retry executor (google\_sheets\_writer.py)\<close>

text \<open>
  An exception of the Python code is a value: \<open>HttpError status\<close> is googleapiclient's
  HttpError with \<open>e.resp.status = status\<close>, \<open>OtherError msg\<close> is any other
  subclass of Exception. A call that may raise returns \<open>exn + 'a\<close>, \<open>Inl\<close> the exception.
\<close>

datatype exn = HttpError nat | OtherError string

text \<open>
  The world outside the writer. \<open>clock\<close> is what \<open>time.time()\<close> reads, in seconds.
  The record is extensible: the remote spreadsheet is added to it further down.
\<close>

record world =
  clock :: real

text \<open>
  The fields of GoogleSheetsWriter that the executor reads and writes. \<open>trace\<close> is not a
  field of the class: it records, in order, every invocation of a wrapped operation (with
  the clock reading at that moment), every sleep of \<open>_rate_limit_delay\<close> and every
  back-off sleep (with the attempt number and the delay).
\<close>

datatype event = Invoked real | RateSleep real | Backoff nat real

record writer =
  service :: bool
  last_request_time :: real
  min_request_interval :: real
  max_retries :: nat
  base_delay :: real
  sheet_id_cache :: "(string \<times> int) list"
  trace :: "event list"

text \<open>\<open>GoogleSheetsWriter.__init__\<close>; \<open>ok\<close> tells whether \<open>_initialize_service\<close> built the service.\<close>

definition init_writer :: "bool \<Rightarrow> writer" where
  "init_writer ok =
     \<lparr>service = ok, last_request_time = 0, min_request_interval = 12 / 10,
      max_retries = 5, base_delay = 3, sheet_id_cache = [], trace = []\<rparr>"

text \<open>\<open>asyncio.sleep(d)\<close>: the clock moves on by \<open>d\<close>; a delay that is not positive returns at once.\<close>

definition sleep :: "real \<Rightarrow> 'w world_scheme \<Rightarrow> 'w world_scheme" where
  "sleep d w = w\<lparr>clock := clock w + max 0 d\<rparr>"

definition log_event :: "event \<Rightarrow> writer \<Rightarrow> writer" where
  "log_event e wr = wr\<lparr>trace := trace wr @ [e]\<rparr>"

text \<open>\<open>_rate_limit_delay\<close>.\<close>

definition rate_limit_delay :: "writer \<Rightarrow> 'w world_scheme \<Rightarrow> writer \<times> 'w world_scheme" where
  "rate_limit_delay wr w =
     (let current_time = clock w;
          time_since_last_request = current_time - last_request_time wr;
          (wr1, w1) =
            (if time_since_last_request < min_request_interval wr
             then let delay = min_request_interval wr - time_since_last_request
                  in (log_event (RateSleep delay) wr, sleep delay w)
             else (wr, w))
      in (wr1\<lparr>last_request_time := clock w1\<rparr>, w1))"

text \<open>
  An operation is the closure handed to the executor: it acts on the world and returns
  or raises. \<open>try_operation\<close> is the body of the \<open>try\<close> block, \<open>backoff\<close> the
  sleep before \<open>continue\<close>, and \<open>retry_loop\<close> is \<open>for attempt in range(max_retries + 1)\<close> of
  \<open>_execute_with_retry\<close>, from \<open>attempt\<close> on. \<open>max_retries\<close> is a natural number, as is the
  instance default 5 that every caller in the repository uses, so the range is never empty.
\<close>

type_synonym ('a, 'w) operation = "'w world_scheme \<Rightarrow> (exn + 'a) \<times> 'w world_scheme"

definition try_operation ::
  "('a, 'w) operation \<Rightarrow> writer \<Rightarrow> 'w world_scheme \<Rightarrow> (exn + 'a) \<times> writer \<times> 'w world_scheme" where
  "try_operation operation wr w =
     (let (wr1, w1) = rate_limit_delay wr w;
          wr2 = log_event (Invoked (clock w1)) wr1;
          (r, w2) = operation w1
      in (r, wr2, w2))"

definition backoff :: "nat \<Rightarrow> writer \<Rightarrow> 'w world_scheme \<Rightarrow> writer \<times> 'w world_scheme" where
  "backoff attempt wr w =
     (let delay = base_delay wr * 2 ^ attempt
      in (log_event (Backoff attempt delay) wr, sleep delay w))"

function retry_loop ::
  "('a, 'w) operation \<Rightarrow> nat \<Rightarrow> nat \<Rightarrow> writer \<Rightarrow> 'w world_scheme
     \<Rightarrow> (exn + 'a) \<times> writer \<times> 'w world_scheme" where
  "retry_loop operation maxr attempt wr w =
     (case try_operation operation wr w of
        (Inr result, wr2, w2) \<Rightarrow> (Inr result, wr2, w2)
      | (Inl (HttpError status), wr2, w2) \<Rightarrow>
          if status = 429 then
            if attempt < maxr then
              (case backoff attempt wr2 w2 of
                 (wr3, w3) \<Rightarrow> retry_loop operation maxr (attempt + 1) wr3 w3)
            else (Inl (HttpError status), wr2, w2)
          else (Inl (HttpError status), wr2, w2)
      | (Inl (OtherError msg), wr2, w2) \<Rightarrow>
          if attempt < maxr then
            (case backoff attempt wr2 w2 of
               (wr3, w3) \<Rightarrow> retry_loop operation maxr (attempt + 1) wr3 w3)
          else (Inl (OtherError msg), wr2, w2))"
  by pat_completeness auto
termination
  by (relation "measure (\<lambda>(operation, maxr, attempt, wr, w). maxr - attempt)") auto

declare retry_loop.simps [simp del]

definition execute_with_retry ::
  "('a, 'w) operation \<Rightarrow> writer \<Rightarrow> 'w world_scheme \<Rightarrow> (exn + 'a) \<times> writer \<times> 'w world_scheme" where
  "execute_with_retry operation wr w = retry_loop operation (max_retries wr) 0 wr w"

text \<open>The exceptions after which the loop goes on: HTTP 429 and anything that is not an HttpError.\<close>

fun retryable :: "exn \<Rightarrow> bool" where
  "retryable (HttpError status) = (status = 429)"
| "retryable (OtherError msg) = True"



fun is_rate_sleep :: "event \<Rightarrow> bool" where
  "is_rate_sleep (RateSleep d) = True"
| "is_rate_sleep e = False"


fun invoke_times :: "event list \<Rightarrow> real list" where
  "invoke_times [] = []"
| "invoke_times (Invoked t # es) = t # invoke_times es"
| "invoke_times (e # es) = invoke_times es"

text \<open>
  The invocations and back-off sleeps of one call in order, the clock readings left out:
  \<open>n\<close> invocations starting at attempt \<open>a\<close>, with the sleep of attempt \<open>k\<close> between
  invocation \<open>k\<close> and invocation \<open>k + 1\<close>.
\<close>

datatype step = Call | Wait nat real

fun steps :: "event list \<Rightarrow> step list" where
  "steps [] = []"
| "steps (Invoked t # es) = Call # steps es"
| "steps (Backoff k d # es) = Wait k d # steps es"
| "steps (RateSleep d # es) = steps es"




text \<open>An operation that does not touch the world and ends the same way at every invocation.\<close>

definition always :: "exn + unit \<Rightarrow> (unit, unit) operation" where
  "always x v = (x, v)"

section \<open>Daily task of the scheduler (scheduler.py)\<close>

text \<open>
  An instant is a number of microseconds since the epoch in UTC, the resolution of
  Python's \<open>datetime\<close>. \<open>replace_time\<close> is
  \<open>utc_now.replace(hour=hour, minute=minute, second=0, microsecond=0)\<close>, which raises
  ValueError (here \<open>None\<close>) for an hour outside 0..23 or a minute outside 0..59.
\<close>

definition day :: int where
  "day = 86400000000"

definition replace_time :: "int \<Rightarrow> int \<Rightarrow> int \<Rightarrow> int option" where
  "replace_time utc_now hour minute =
     (if 0 \<le> hour \<and> hour < 24 \<and> 0 \<le> minute \<and> minute < 60
      then Some (utc_now - utc_now mod day + hour * 3600000000 + minute * 60000000)
      else None)"

text \<open>The target of one round of \<open>_run_daily_task\<close>: today's \<open>hour:minute\<close>, or tomorrow's.\<close>

definition next_target :: "int \<Rightarrow> int \<Rightarrow> int \<Rightarrow> int option" where
  "next_target utc_now hour minute =
     (case replace_time utc_now hour minute of
        None \<Rightarrow> None
      | Some target_time \<Rightarrow>
          Some (if target_time \<le> utc_now then target_time + day else target_time))"

text \<open>
  \<open>_run_daily_task\<close>. The loop runs while \<open>self.running\<close> holds; the model runs one
  round for each job run the environment supplies: how long the callback takes (in
  microseconds) and whether it returns or raises an Exception. A round computes the target,
  sleeps \<open>wait_seconds\<close>, and runs the callback at the instant the sleep ends; that instant
  is logged with the job's outcome. An exception of the callback is caught and logged, and
  the next round starts from the clock reading at which the callback ended. The ValueError
  of \<open>replace\<close> is raised outside the \<open>try\<close> and ends the task: the result is \<open>None\<close>.
\<close>

datatype job_outcome = Returned | Raised string

fun run_daily_task ::
  "int \<Rightarrow> int \<Rightarrow> int \<Rightarrow> (nat \<times> job_outcome) list \<Rightarrow> (int \<times> job_outcome) list option" where
  "run_daily_task hour minute utc_now [] = Some []"
| "run_daily_task hour minute utc_now ((duration, outcome) # jobs) =
     (case next_target utc_now hour minute of
        None \<Rightarrow> None
      | Some target_time \<Rightarrow>
          let wait = target_time - utc_now;
              fired = utc_now + wait;
              finished = fired + int duration
          in map_option ((#) (fired, outcome)) (run_daily_task hour minute finished jobs))"

section \<open>Login with a window search (auth\_manager.py)\<close>

text \<open>
  What \<open>ApiClient.send_request\<close> returns, as far as \<open>get_token\<close> looks at it: the
  \<open>'error'\<close> entry if there is one, and of \<open>response['response']\<close> the \<open>'msg'\<close> entry and the
  \<open>'data'\<close> entry. The latter is absent, or JSON null (on which the test
  \<open>'token' in ...\<close> raises TypeError), or an object with or without \<open>'token'\<close> and
  \<open>'expiresIn'\<close>. A token is null or a string.
\<close>

datatype token_value = TNone | TStr string

datatype data_value = DataNull | DataDict "token_value option" "real option"

record response =
  error :: "string option"
  data :: "data_value option"
  msg :: "string option"



















section \<open>Request signature (param\_generator.py)\<close>

subsection \<open>MD5\<close>

text \<open>
  \<open>hashlib.md5(bytes).hexdigest()\<close>, written out after RFC 1321 on 32-bit words: the
  table of sines, the rotation amounts, the padding with the bit length in 64 bits
  little-endian, and the four rounds of sixteen steps on each block of sixteen words.
\<close>

definition md5_K :: "32 word list" where
  "md5_K =
     [0xd76aa478, 0xe8c7b756, 0x242070db, 0xc1bdceee,
      0xf57c0faf, 0x4787c62a, 0xa8304613, 0xfd469501,
      0x698098d8, 0x8b44f7af, 0xffff5bb1, 0x895cd7be,
      0x6b901122, 0xfd987193, 0xa679438e, 0x49b40821,
      0xf61e2562, 0xc040b340, 0x265e5a51, 0xe9b6c7aa,
      0xd62f105d, 0x02441453, 0xd8a1e681, 0xe7d3fbc8,
      0x21e1cde6, 0xc33707d6, 0xf4d50d87, 0x455a14ed,
      0xa9e3e905, 0xfcefa3f8, 0x676f02d9, 0x8d2a4c8a,
      0xfffa3942, 0x8771f681, 0x6d9d6122, 0xfde5380c,
      0xa4beea44, 0x4bdecfa9, 0xf6bb4b60, 0xbebfbc70,
      0x289b7ec6, 0xeaa127fa, 0xd4ef3085, 0x04881d05,
      0xd9d4d039, 0xe6db99e5, 0x1fa27cf8, 0xc4ac5665,
      0xf4292244, 0x432aff97, 0xab9423a7, 0xfc93a039,
      0x655b59c3, 0x8f0ccc92, 0xffeff47d, 0x85845dd1,
      0x6fa87e4f, 0xfe2ce6e0, 0xa3014314, 0x4e0811a1,
      0xf7537e82, 0xbd3af235, 0x2ad7d2bb, 0xeb86d391]"

definition md5_s :: "nat list" where
  "md5_s =
     [7, 12, 17, 22, 7, 12, 17, 22, 7, 12, 17, 22, 7, 12, 17, 22,
      5, 9, 14, 20, 5, 9, 14, 20, 5, 9, 14, 20, 5, 9, 14, 20,
      4, 11, 16, 23, 4, 11, 16, 23, 4, 11, 16, 23, 4, 11, 16, 23,
      6, 10, 15, 21, 6, 10, 15, 21, 6, 10, 15, 21, 6, 10, 15, 21]"

definition md5_pad :: "int list \<Rightarrow> int list" where
  "md5_pad bs =
     (let n = length bs;
          zeros = (119 - n mod 64) mod 64;
          bits = 8 * int n
      in bs @ [128] @ replicate zeros 0 @
         map (\<lambda>i. (bits div 256 ^ i) mod 256) [0, 1, 2, 3, 4, 5, 6, 7])"

fun le_words :: "int list \<Rightarrow> 32 word list" where
  "le_words (b0 # b1 # b2 # b3 # bs) =
     of_int (b0 + 256 * b1 + 65536 * b2 + 16777216 * b3) # le_words bs"
| "le_words bs = []"

type_synonym md5_state = "32 word \<times> 32 word \<times> 32 word \<times> 32 word"

definition md5_round :: "32 word list \<Rightarrow> nat \<Rightarrow> md5_state \<Rightarrow> md5_state" where
  "md5_round m i st =
     (case st of (a, b, c, d) \<Rightarrow>
        let (f, g) =
              (if i < 16 then ((b AND c) OR (NOT b AND d), i)
               else if i < 32 then ((d AND b) OR (NOT d AND c), (5 * i + 1) mod 16)
               else if i < 48 then (b XOR c XOR d, (3 * i + 5) mod 16)
               else (c XOR (b OR NOT d), (7 * i) mod 16));
            f' = f + a + md5_K ! i + m ! g
        in (d, b + word_rotl (md5_s ! i) f', b, c))"

definition md5_block :: "md5_state \<Rightarrow> 32 word list \<Rightarrow> md5_state" where
  "md5_block h m =
     (case h of (a0, b0, c0, d0) \<Rightarrow>
        case fold (md5_round m) [0 ..< 64] h of (a, b, c, d) \<Rightarrow>
          (a0 + a, b0 + b, c0 + c, d0 + d))"

fun md5_blocks :: "md5_state \<Rightarrow> 32 word list \<Rightarrow> md5_state" where
  "md5_blocks h ws =
     (if length ws < 16 then h else md5_blocks (md5_block h (take 16 ws)) (drop 16 ws))"

declare md5_blocks.simps [simp del]

definition hex_digit :: "int \<Rightarrow> char" where
  "hex_digit n = ''0123456789abcdef'' ! nat n"

definition hex_byte :: "int \<Rightarrow> string" where
  "hex_byte b = [hex_digit (b div 16), hex_digit (b mod 16)]"

definition hex_le :: "32 word \<Rightarrow> string" where
  "hex_le w = concat (map (\<lambda>i. hex_byte ((uint w div 256 ^ i) mod 256)) [0, 1, 2, 3])"

definition md5_hexdigest :: "string \<Rightarrow> string" where
  "md5_hexdigest s =
     (case md5_blocks (0x67452301, 0xefcdab89, 0x98badcfe, 0x10325476)
             (le_words (md5_pad (map of_char s))) of
        (a, b, c, d) \<Rightarrow> hex_le a @ hex_le b @ hex_le c @ hex_le d)"

text \<open>\<open>str.upper()\<close> on ASCII.\<close>

definition upper_char :: "char \<Rightarrow> char" where
  "upper_char c =
     (let n = of_char c :: int in if 97 \<le> n \<and> n \<le> 122 then char_of (n - 32) else c)"

definition upper :: "string \<Rightarrow> string" where
  "upper s = map upper_char s"

subsection \<open>JSON values and \<open>json.dumps\<close>\<close>

text \<open>
  The values a request dictionary holds. A string is its UTF-8 bytes; a dictionary is the
  list of its items in insertion order. Floats are left out.
\<close>

datatype json =
  JNull | JBool bool | JInt int | JStr string | JList "json list" | JDict "(string \<times> json) list"

function decimal :: "int \<Rightarrow> string" where
  "decimal n =
     (if n < 0 then CHR ''-'' # decimal (- n)
      else if n < 10 then [hex_digit n]
      else decimal (n div 10) @ [hex_digit (n mod 10)])"
  by pat_completeness auto
termination
  by (relation "measure (\<lambda>n. if n < 0 then nat (- n) + 1 else nat n)") auto

declare decimal.simps [simp del]

text \<open>
  The string escapes of \<open>json.dumps(..., ensure_ascii=False)\<close>: the quote, the backslash,
  the five short control escapes, and \<open>\u00XX\<close> for the other characters below 0x20.
\<close>

definition escape_char :: "char \<Rightarrow> string" where
  "escape_char c =
     (if c = CHR 0x22 then [CHR 0x5C, CHR 0x22]
      else if c = CHR 0x5C then [CHR 0x5C, CHR 0x5C]
      else if c = CHR 0x0A then [CHR 0x5C, CHR ''n'']
      else if c = CHR 0x0D then [CHR 0x5C, CHR ''r'']
      else if c = CHR 0x09 then [CHR 0x5C, CHR ''t'']
      else if c = CHR 0x08 then [CHR 0x5C, CHR ''b'']
      else if c = CHR 0x0C then [CHR 0x5C, CHR ''f'']
      else if (of_char c :: int) < 32 then [CHR 0x5C, CHR ''u'', CHR ''0'', CHR ''0''] @ hex_byte (of_char c)
      else [c])"

definition quote :: "string \<Rightarrow> string" where
  "quote s = [CHR 0x22] @ concat (map escape_char s) @ [CHR 0x22]"

fun join :: "string \<Rightarrow> string list \<Rightarrow> string" where
  "join sep [] = []"
| "join sep [x] = x"
| "join sep (x # y # ys) = x @ sep @ join sep (y # ys)"

text \<open>\<open>json.dumps(obj, separators=(',', ':'), ensure_ascii=False)\<close>.\<close>

fun dumps :: "json \<Rightarrow> string" where
  "dumps JNull = ''null''"
| "dumps (JBool b) = (if b then ''true'' else ''false'')"
| "dumps (JInt n) = decimal n"
| "dumps (JStr s) = quote s"
| "dumps (JList xs) = ''['' @ join '','' (map dumps xs) @ '']''"
| "dumps (JDict items) =
     ''{'' @ join '','' (map (\<lambda>kv. quote (fst kv) @ '':'' @ dumps (snd kv)) items) @ ''}''"

subsection \<open>\<open>generate_signature\<close>\<close>

definition exclude_keys :: "string list" where
  "exclude_keys = [''timestamp'', ''signature'', ''track'']"

fun is_list :: "json \<Rightarrow> bool" where
  "is_list (JList xs) = True"
| "is_list v = False"

text \<open>
  The inner function \<open>sort_and_stringify\<close>: a dictionary becomes the serialization of
  the dictionary built from its sorted items, without the excluded keys and without the
  items whose value is a list, each remaining value treated the same way; any other
  object is returned as it is. \<open>sorted(obj.items())\<close> orders the items by key, the keys
  of a dictionary being distinct.
\<close>

fun sort_and_stringify :: "json \<Rightarrow> json" where
  "sort_and_stringify (JDict items) =
     JStr (dumps (JDict
       (map (\<lambda>kv. (fst kv, sort_and_stringify (snd kv)))
          (filter (\<lambda>kv. fst kv \<notin> set exclude_keys \<and> \<not> is_list (snd kv))
             (sort_key fst items)))))"
| "sort_and_stringify obj = obj"

text \<open>
  \<open>generate_signature\<close>: \<open>sorted_json_str.encode('utf-8')\<close> needs a string, which is what
  a dictionary (or a string) gives; on anything else it raises AttributeError.
\<close>

datatype signature_error = AttributeError

definition generate_signature :: "json \<Rightarrow> signature_error + string" where
  "generate_signature data_in =
     (case sort_and_stringify data_in of
        JStr sorted_json_str \<Rightarrow> Inr (upper (md5_hexdigest sorted_json_str))
      | other \<Rightarrow> Inl AttributeError)"

text \<open>
  The signature as the specification words it: the canonical serialization (keys sorted
  at every level, no whitespace) of all fields except the three excluded ones, hashed
  with MD5, in upper-case hexadecimal.
\<close>

fun sort_keys :: "json \<Rightarrow> json" where
  "sort_keys (JDict items) = JDict (sort_key fst (map (\<lambda>kv. (fst kv, sort_keys (snd kv))) items))"
| "sort_keys (JList xs) = JList (map sort_keys xs)"
| "sort_keys v = v"

definition canonical :: "json \<Rightarrow> string" where
  "canonical v = dumps (sort_keys v)"

definition spec_signature :: "(string \<times> json) list \<Rightarrow> string" where
  "spec_signature items =
     upper (md5_hexdigest (canonical (JDict (filter (\<lambda>kv. fst kv \<notin> set exclude_keys) items))))"

text \<open>
  What the code signs instead, in the same words: list-valued fields are left out as
  well, and a field whose value is a dictionary is signed as the string that holds the
  canonical serialization of that dictionary under the same rule.
\<close>

fun signed_value :: "json \<Rightarrow> json" where
  "signed_value (JDict items) =
     JStr (canonical (JDict
       (map (\<lambda>kv. (fst kv, signed_value (snd kv)))
          (filter (\<lambda>kv. fst kv \<notin> set exclude_keys \<and> \<not> is_list (snd kv)) items))))"
| "signed_value v = v"

fun scalar :: "json \<Rightarrow> bool" where
  "scalar (JList xs) = False"
| "scalar (JDict items) = False"
| "scalar v = True"

section \<open>Spreadsheet writes (google\_sheets\_writer.py)\<close>

subsection \<open>Dates\<close>

text \<open>
  A date is its proleptic Gregorian ordinal, as \<open>date.toordinal()\<close> gives it; the
  functions are those of Python's \<open>datetime\<close> module.
\<close>

definition is_leap :: "int \<Rightarrow> bool" where
  "is_leap y = (y mod 4 = 0 \<and> (y mod 100 \<noteq> 0 \<or> y mod 400 = 0))"

definition days_in_month :: "int \<Rightarrow> int \<Rightarrow> int" where
  "days_in_month y m =
     (if m = 2 \<and> is_leap y then 29
      else [31, 28, 31, 30, 31, 30, 31, 31, 30, 31, 30, 31] ! nat (m - 1))"

definition days_before_year :: "int \<Rightarrow> int" where
  "days_before_year year =
     (let y = year - 1 in y * 365 + y div 4 - y div 100 + y div 400)"

definition days_before_month :: "int \<Rightarrow> int \<Rightarrow> int" where
  "days_before_month year month =
     [0, 31, 59, 90, 120, 151, 181, 212, 243, 273, 304, 334] ! nat (month - 1) +
     (if month > 2 \<and> is_leap year then 1 else 0)"

definition ymd2ord :: "int \<Rightarrow> int \<Rightarrow> int \<Rightarrow> int" where
  "ymd2ord year month d = days_before_year year + days_before_month year month + d"

definition ord2ymd :: "int \<Rightarrow> int \<times> int \<times> int" where
  "ord2ymd n0 =
     (let n = n0 - 1;
          n400 = n div 146097; n = n mod 146097;
          n100 = n div 36524; n = n mod 36524;
          n4 = n div 1461; n = n mod 1461;
          n1 = n div 365; n = n mod 365;
          year = n400 * 400 + 1 + n100 * 100 + n4 * 4 + n1
      in if n1 = 4 \<or> n100 = 4 then (year - 1, 12, 31)
         else
           let leapyear = (n1 = 3 \<and> (n4 \<noteq> 24 \<or> n100 = 3));
               month = (n + 50) div 32;
               preceding = [0, 31, 59, 90, 120, 151, 181, 212, 243, 273, 304, 334] ! nat (month - 1) +
                           (if month > 2 \<and> leapyear then 1 else 0)
           in if preceding > n
              then let month' = month - 1;
                       preceding' = preceding -
                         ([31, 28, 31, 30, 31, 30, 31, 31, 30, 31, 30, 31] ! nat (month' - 1) +
                          (if month' = 2 \<and> leapyear then 1 else 0))
                   in (year, month', n - preceding' + 1)
              else (year, month, n - preceding + 1))"

text \<open>
  \<open>datetime.strptime(s, '%Y-%m-%d').date()\<close>: four digits, a dash, a month written
  \<open>1[0-2]\<close>, \<open>0[1-9]\<close> or \<open>[1-9]\<close>, a dash, a day written \<open>3[01]\<close>, \<open>[12]\d\<close>,
  \<open>0[1-9]\<close>, \<open>[1-9]\<close> or a blank and \<open>[1-9]\<close>, and nothing after it; the year is at
  least 1 and the day exists in the month. Anything else raises ValueError, here \<open>None\<close>.
\<close>

definition digit_of :: "char \<Rightarrow> int option" where
  "digit_of c =
     (let n = of_char c :: int in if 48 \<le> n \<and> n \<le> 57 then Some (n - 48) else None)"

fun parse_day :: "string \<Rightarrow> int option" where
  "parse_day [a] = (case digit_of a of Some x \<Rightarrow> if 1 \<le> x then Some x else None | None \<Rightarrow> None)"
| "parse_day [a, b] =
     (case (digit_of a, digit_of b) of
        (Some x, Some y) \<Rightarrow>
          if x = 3 \<and> y \<le> 1 then Some (30 + y)
          else if x = 1 \<or> x = 2 then Some (10 * x + y)
          else if x = 0 \<and> 1 \<le> y then Some y
          else None
      | (None, Some y) \<Rightarrow> if a = CHR '' '' \<and> 1 \<le> y then Some y else None
      | other \<Rightarrow> None)"
| "parse_day s = None"

fun parse_month_day :: "string \<Rightarrow> (int \<times> int) option" where
  "parse_month_day (a # b # c # rest) =
     (case (digit_of a, digit_of b) of
        (Some x, Some y) \<Rightarrow>
          if c = CHR ''-'' \<and> ((x = 1 \<and> y \<le> 2) \<or> (x = 0 \<and> 1 \<le> y))
          then map_option (Pair (10 * x + y)) (parse_day rest)
          else None
      | (Some x, None) \<Rightarrow>
          if b = CHR ''-'' \<and> 1 \<le> x then map_option (Pair x) (parse_day (c # rest)) else None
      | other \<Rightarrow> None)"
| "parse_month_day s = None"

fun strptime_date :: "string \<Rightarrow> int option" where
  "strptime_date (a # b # c # d # e # rest) =
     (case (digit_of a, digit_of b, digit_of c, digit_of d) of
        (Some y1, Some y2, Some y3, Some y4) \<Rightarrow>
          if e \<noteq> CHR ''-'' then None
          else (case parse_month_day rest of
                  None \<Rightarrow> None
                | Some (month, dd) \<Rightarrow>
                    let year = 1000 * y1 + 100 * y2 + 10 * y3 + y4
                    in if 1 \<le> year \<and> dd \<le> days_in_month year month
                       then Some (ymd2ord year month dd) else None)
      | other \<Rightarrow> None)"
| "strptime_date s = None"

text \<open>
  \<open>get_india_datetime\<close> reads the clock in the zone Asia/Kolkata, five and a half hours
  ahead of UTC; its date, and \<open>format_datetime_for_sheet\<close> of it.
\<close>

definition india_seconds :: "real \<Rightarrow> int" where
  "india_seconds t = \<lfloor>t\<rfloor> + 19800"

definition india_date :: "real \<Rightarrow> int" where
  "india_date t = 719163 + india_seconds t div 86400"

definition two_digits :: "int \<Rightarrow> string" where
  "two_digits n = [hex_digit (n div 10), hex_digit (n mod 10)]"

definition four_digits :: "int \<Rightarrow> string" where
  "four_digits n =
     [hex_digit (n div 1000), hex_digit (n div 100 mod 10), hex_digit (n div 10 mod 10),
      hex_digit (n mod 10)]"

definition format_datetime_for_sheet :: "real \<Rightarrow> string" where
  "format_datetime_for_sheet t =
     (case ord2ymd (india_date t) of
        (y, m, d) \<Rightarrow>
          let s = india_seconds t mod 86400
          in four_digits y @ ''-'' @ two_digits m @ ''-'' @ two_digits d @ '' '' @
             two_digits (s div 3600) @ '':'' @ two_digits (s div 60 mod 60) @ '':'' @
             two_digits (s mod 60))"

subsection \<open>The remote spreadsheet\<close>

text \<open>
  The Google Sheets service as the writer sees it: one spreadsheet \<open>ss_id\<close> with one
  sheet, its title, its numeric id and its grid. The grid is the list of rows from row 1
  on, each row the list of its cell values as text; it has no last row or column, and
  what lies beyond the lists is empty. \<open>faults\<close> scripts transient failures: each remote
  invocation takes the head of the list, and raises it if it is an exception.
\<close>

record sheets_world = world +
  ss_id :: string
  title :: string
  sheet_id :: int
  grid :: "string list list"
  faults :: "exn option list"

type_synonym 'a remote = "('a, \<lparr>ss_id :: string, title :: string, sheet_id :: int,
  grid :: string list list, faults :: exn option list\<rparr>) operation"

text \<open>
  \<open>remote\<close> wraps a service call: the scripted fault first, then the spreadsheet id
  (HTTP 404 for an unknown one), then the call itself.
\<close>

definition remote :: "string \<Rightarrow> (sheets_world \<Rightarrow> (exn + 'a) \<times> sheets_world) \<Rightarrow> 'a remote" where
  "remote spreadsheet_id call w =
     (let w1 = w\<lparr>faults := tl (faults w)\<rparr>
      in case faults w of
           Some e # rest \<Rightarrow> (Inl e, w1)
         | other \<Rightarrow> if spreadsheet_id \<noteq> ss_id w1 then (Inl (HttpError 404), w1) else call w1)"

text \<open>\<open>spreadsheets().get\<close>: the sheets with their titles and ids.\<close>

definition spreadsheets_get :: "string \<Rightarrow> (string \<times> int) list remote" where
  "spreadsheets_get spreadsheet_id = remote spreadsheet_id (\<lambda>w. (Inr [(title w, sheet_id w)], w))"

text \<open>
  \<open>values().get\<close> of the columns A to J: rows up to the last one that is not empty, each
  without its trailing empty cells; HTTP 400 for a sheet name that does not exist.
\<close>

definition trim_row :: "string list \<Rightarrow> string list" where
  "trim_row r = rev (dropWhile (\<lambda>c. c = []) (rev (take 10 r)))"

definition read_values :: "string list list \<Rightarrow> string list list" where
  "read_values g = rev (dropWhile (\<lambda>r. r = []) (rev (map trim_row g)))"

definition values_get :: "string \<Rightarrow> string \<Rightarrow> string list list remote" where
  "values_get spreadsheet_id sheet_name =
     remote spreadsheet_id
       (\<lambda>w. if sheet_name \<noteq> title w then (Inl (HttpError 400), w)
            else (Inr (read_values (grid w)), w))"

text \<open>
  \<open>batchUpdate\<close>: the requests are applied one after the other, each to the grid the
  one before left, and all or none: a request that names another sheet, or none, or
  an empty range, fails the whole batch with HTTP 400.
\<close>

datatype request = InsertDimension "int option" nat nat | DeleteDimension "int option" nat nat

definition pad_rows :: "nat \<Rightarrow> string list list \<Rightarrow> string list list" where
  "pad_rows n g = g @ replicate (n - length g) []"

fun apply_request :: "int \<Rightarrow> request \<Rightarrow> string list list \<Rightarrow> string list list option" where
  "apply_request sid (InsertDimension s start_index end_index) g =
     (if s = Some sid \<and> start_index < end_index
      then Some (take start_index (pad_rows start_index g) @
                 replicate (end_index - start_index) [] @ drop start_index g)
      else None)"
| "apply_request sid (DeleteDimension s start_index end_index) g =
     (if s = Some sid \<and> start_index < end_index
      then Some (take start_index g @ drop end_index g)
      else None)"

fun apply_requests :: "int \<Rightarrow> request list \<Rightarrow> string list list \<Rightarrow> string list list option" where
  "apply_requests sid [] g = Some g"
| "apply_requests sid (r # rs) g =
     (case apply_request sid r g of None \<Rightarrow> None | Some g' \<Rightarrow> apply_requests sid rs g')"

definition batch_update :: "string \<Rightarrow> request list \<Rightarrow> unit remote" where
  "batch_update spreadsheet_id requests =
     remote spreadsheet_id
       (\<lambda>w. case apply_requests (sheet_id w) requests (grid w) of
               None \<Rightarrow> (Inl (HttpError 400), w)
             | Some g \<Rightarrow> (Inr (), w\<lparr>grid := g\<rparr>))"

text \<open>
  \<open>values().update\<close> of the range \<open>A2:J(1+n)\<close> with \<open>n\<close> rows of values: row \<open>2 + i\<close>
  takes the \<open>i\<close>-th row of values in its first cells and keeps the cells after them.
\<close>

fun overwrite :: "string list list \<Rightarrow> string list list \<Rightarrow> string list list" where
  "overwrite [] g = g"
| "overwrite (v # vs) [] = v # overwrite vs []"
| "overwrite (v # vs) (r # g) = (v @ drop (length v) r) # overwrite vs g"

definition values_update :: "string \<Rightarrow> string \<Rightarrow> string list list \<Rightarrow> unit remote" where
  "values_update spreadsheet_id sheet_name vals =
     remote spreadsheet_id
       (\<lambda>w. if sheet_name \<noteq> title w then (Inl (HttpError 400), w)
            else (Inr (), w\<lparr>grid := take 1 (pad_rows 1 (grid w)) @ overwrite vals (drop 1 (grid w))\<rparr>))"

subsection \<open>The writer\<close>

text \<open>
  \<open>_queue_operation\<close> hands the operation to the queue worker, which runs it through
  \<open>_execute_with_retry\<close> and resolves the future with the result or the exception; the
  caller awaits the future. For one caller at a time that is the executor itself.
\<close>

definition queue_operation ::
  "('a, 'w) operation \<Rightarrow> writer \<Rightarrow> 'w world_scheme \<Rightarrow> (exn + 'a) \<times> writer \<times> 'w world_scheme" where
  "queue_operation operation wr w = execute_with_retry operation wr w"

text \<open>
  \<open>_get_sheet_id\<close>, with its cache; a failed lookup is \<open>None\<close>. The cache dictionary is
  the list of its entries, the newest first; an entry is only added for a key that is
  not in it.
\<close>

definition get_sheet_id ::
  "string \<Rightarrow> string \<Rightarrow> writer \<Rightarrow> sheets_world \<Rightarrow> int option \<times> writer \<times> sheets_world" where
  "get_sheet_id spreadsheet_id sheet_name wr w =
     (let cache_key = spreadsheet_id @ ''_'' @ sheet_name
      in case map_of (sheet_id_cache wr) cache_key of
           Some sid \<Rightarrow> (Some sid, wr, w)
         | None \<Rightarrow>
             (case queue_operation (spreadsheets_get spreadsheet_id) wr w of
                (Inl e, wr1, w1) \<Rightarrow> (None, wr1, w1)
              | (Inr sheets, wr1, w1) \<Rightarrow>
                  (case map_of sheets sheet_name of
                     Some sid \<Rightarrow>
                       (Some sid, wr1\<lparr>sheet_id_cache := (cache_key, sid) # sheet_id_cache wr1\<rparr>, w1)
                   | None \<Rightarrow> (None, wr1, w1))))"

text \<open>
  The grouping of the sorted row numbers (counted from 1) into ranges of consecutive
  rows, as both delete functions do it: \<open>group_ranges start_row end_row rest\<close> is the loop
  over the remaining row numbers, and each range is \<open>startIndex = start_row - 1\<close>,
  \<open>endIndex = end_row\<close>. The sheet id of every request is looked up when the request is
  built.
\<close>

fun group_ranges :: "nat \<Rightarrow> nat \<Rightarrow> nat list \<Rightarrow> (nat \<times> nat) list" where
  "group_ranges start_row end_row [] = [(start_row - 1, end_row)]"
| "group_ranges start_row end_row (r # rs) =
     (if r = end_row + 1 then group_ranges start_row r rs
      else (start_row - 1, end_row) # group_ranges r r rs)"

fun delete_requests ::
  "string \<Rightarrow> string \<Rightarrow> (nat \<times> nat) list \<Rightarrow> writer \<Rightarrow> sheets_world
     \<Rightarrow> request list \<times> writer \<times> sheets_world" where
  "delete_requests spreadsheet_id sheet_name [] wr w = ([], wr, w)"
| "delete_requests spreadsheet_id sheet_name ((start_index, end_index) # ranges) wr w =
     (case get_sheet_id spreadsheet_id sheet_name wr w of
        (sid, wr1, w1) \<Rightarrow>
          (case delete_requests spreadsheet_id sheet_name ranges wr1 w1 of
             (reqs, wr2, w2) \<Rightarrow> (DeleteDimension sid start_index end_index # reqs, wr2, w2)))"

text \<open>The tail both delete functions share, from \<open>if not rows_to_delete\<close> on.\<close>

definition delete_rows ::
  "string \<Rightarrow> string \<Rightarrow> nat list \<Rightarrow> writer \<Rightarrow> sheets_world \<Rightarrow> bool \<times> writer \<times> sheets_world" where
  "delete_rows spreadsheet_id sheet_name rows_to_delete wr w =
     (case sort rows_to_delete of
        [] \<Rightarrow> (True, wr, w)
      | first # rest \<Rightarrow>
          (case delete_requests spreadsheet_id sheet_name (group_ranges first first rest) wr w of
             (reqs, wr1, w1) \<Rightarrow>
               (case queue_operation (batch_update spreadsheet_id reqs) wr1 w1 of
                  (Inl e, wr2, w2) \<Rightarrow> (False, wr2, w2)
                | (Inr u, wr2, w2) \<Rightarrow> (True, wr2, w2))))"

text \<open>
  \<open>_delete_rows_by_date\<close>: the rows read whose third cell is the date and whose second
  cell is the group, numbered from 1.
\<close>

definition matching_rows :: "(string list \<Rightarrow> bool) \<Rightarrow> string list list \<Rightarrow> nat list" where
  "matching_rows p vals = map (\<lambda>ir. fst ir + 1) (filter (\<lambda>ir. p (snd ir)) (enumerate 0 vals))"

definition same_date_group :: "string \<Rightarrow> string \<Rightarrow> string list \<Rightarrow> bool" where
  "same_date_group date group_name row =
     (length row \<ge> 3 \<and> row ! 2 = date \<and> row ! 1 = group_name)"

definition delete_rows_by_date ::
  "string \<Rightarrow> string \<Rightarrow> string \<Rightarrow> string \<Rightarrow> writer \<Rightarrow> sheets_world
     \<Rightarrow> bool \<times> writer \<times> sheets_world" where
  "delete_rows_by_date spreadsheet_id sheet_name date group_name wr w =
     (case queue_operation (values_get spreadsheet_id sheet_name) wr w of
        (Inl e, wr1, w1) \<Rightarrow> (False, wr1, w1)
      | (Inr vals, wr1, w1) \<Rightarrow>
          if vals = [] then (True, wr1, w1)
          else delete_rows spreadsheet_id sheet_name
                 (matching_rows (same_date_group date group_name) vals) wr1 w1)"

text \<open>
  \<open>_delete_old_hourly_data\<close>: the rows of the group whose date parses and lies before
  the current date in India (\<open>date_diff > 0\<close>).
\<close>

definition old_hourly_row :: "int \<Rightarrow> string \<Rightarrow> string list \<Rightarrow> bool" where
  "old_hourly_row current_date group_name row =
     (length row \<ge> 3 \<and> row ! 1 = group_name \<and> row ! 2 \<noteq> [] \<and>
      (case strptime_date (row ! 2) of
         None \<Rightarrow> False
       | Some row_date \<Rightarrow> current_date - row_date > 0))"

definition delete_old_hourly_data ::
  "string \<Rightarrow> string \<Rightarrow> string \<Rightarrow> writer \<Rightarrow> sheets_world \<Rightarrow> bool \<times> writer \<times> sheets_world" where
  "delete_old_hourly_data spreadsheet_id sheet_name group_name wr w =
     (case queue_operation (values_get spreadsheet_id sheet_name) wr w of
        (Inl e, wr1, w1) \<Rightarrow> (False, wr1, w1)
      | (Inr vals, wr1, w1) \<Rightarrow>
          if vals = [] then (True, wr1, w1)
          else delete_rows spreadsheet_id sheet_name
                 (matching_rows (old_hourly_row (india_date (clock w1)) group_name) vals) wr1 w1)"

text \<open>
  A report record is a dictionary of texts. \<open>build_row\<close> is the row made of one record;
  \<open>insert_rows\<close> is the part both write functions share from \<open>sheet_id = ...\<close> on: it
  makes room below the header and writes the rows there. An exception of a queued
  operation is \<open>Inl\<close>: it leaves the \<open>try\<close> block.
\<close>

type_synonym report = "(string \<times> string) list"

definition get_field :: "report \<Rightarrow> string \<Rightarrow> string \<Rightarrow> string" where
  "get_field d key dflt = (case map_of d key of None \<Rightarrow> dflt | Some v \<Rightarrow> v)"

definition build_row :: "string \<Rightarrow> string \<Rightarrow> report \<Rightarrow> string list" where
  "build_row stamp group_name d =
     [stamp, group_name, get_field d ''create_time'' [], get_field d ''channel'' [],
      get_field d ''register'' ''0'', get_field d ''new_charge_user'' ''0'', get_field d ''new_charge'' ''0'',
      get_field d ''charge_total'' ''0'', get_field d ''withdraw_total'' ''0'',
      get_field d ''charge_withdraw_diff'' ''0'']"

definition insert_rows ::
  "string \<Rightarrow> string \<Rightarrow> string list list \<Rightarrow> writer \<Rightarrow> sheets_world
     \<Rightarrow> (exn + bool) \<times> writer \<times> sheets_world" where
  "insert_rows spreadsheet_id sheet_name rows_to_insert wr w =
     (case get_sheet_id spreadsheet_id sheet_name wr w of
        (None, wr1, w1) \<Rightarrow> (Inr False, wr1, w1)
      | (Some sid, wr1, w1) \<Rightarrow>
          (case queue_operation
                  (batch_update spreadsheet_id
                     [InsertDimension (Some sid) 1 (1 + length rows_to_insert)]) wr1 w1 of
             (Inl e, wr2, w2) \<Rightarrow> (Inl e, wr2, w2)
           | (Inr u, wr2, w2) \<Rightarrow>
               (case queue_operation (values_update spreadsheet_id sheet_name rows_to_insert) wr2 w2 of
                  (Inl e, wr3, w3) \<Rightarrow> (Inl e, wr3, w3)
                | (Inr u', wr3, w3) \<Rightarrow> (Inr True, wr3, w3))))"

text \<open>
  \<open>write_daily_data\<close> and \<open>write_hourly_data\<close>: the \<open>try\<close> block, and the two handlers
  that turn any exception into \<open>False\<close>. The result of the delete step is not looked at.
\<close>

definition write_daily_try ::
  "string \<Rightarrow> string \<Rightarrow> report list \<Rightarrow> string \<Rightarrow> writer \<Rightarrow> sheets_world
     \<Rightarrow> (exn + bool) \<times> writer \<times> sheets_world" where
  "write_daily_try spreadsheet_id sheet_name data_list group_name wr w =
     (if \<not> service wr then (Inr False, wr, w)
      else case data_list of
             [] \<Rightarrow> (Inr False, wr, w)
           | first # others \<Rightarrow>
               let stamp = format_datetime_for_sheet (clock w);
                   data_date = get_field first ''create_time'' []
               in case delete_rows_by_date spreadsheet_id sheet_name data_date group_name wr w of
                    (deleted, wr1, w1) \<Rightarrow>
                      insert_rows spreadsheet_id sheet_name
                        (map (build_row stamp group_name) data_list) wr1 w1)"

definition write_daily_data ::
  "string \<Rightarrow> string \<Rightarrow> report list \<Rightarrow> string \<Rightarrow> writer \<Rightarrow> sheets_world
     \<Rightarrow> bool \<times> writer \<times> sheets_world" where
  "write_daily_data spreadsheet_id sheet_name data_list group_name wr w =
     (case write_daily_try spreadsheet_id sheet_name data_list group_name wr w of
        (Inl e, wr', w') \<Rightarrow> (False, wr', w')
      | (Inr ok, wr', w') \<Rightarrow> (ok, wr', w'))"

definition write_hourly_try ::
  "string \<Rightarrow> string \<Rightarrow> report list \<Rightarrow> string \<Rightarrow> writer \<Rightarrow> sheets_world
     \<Rightarrow> (exn + bool) \<times> writer \<times> sheets_world" where
  "write_hourly_try spreadsheet_id sheet_name data_list group_name wr w =
     (if \<not> service wr then (Inr False, wr, w)
      else case data_list of
             [] \<Rightarrow> (Inr False, wr, w)
           | first # others \<Rightarrow>
               let stamp = format_datetime_for_sheet (clock w)
               in case delete_old_hourly_data spreadsheet_id sheet_name group_name wr w of
                    (deleted, wr1, w1) \<Rightarrow>
                      insert_rows spreadsheet_id sheet_name
                        (map (build_row stamp group_name) data_list) wr1 w1)"

definition write_hourly_data ::
  "string \<Rightarrow> string \<Rightarrow> report list \<Rightarrow> string \<Rightarrow> writer \<Rightarrow> sheets_world
     \<Rightarrow> bool \<times> writer \<times> sheets_world" where
  "write_hourly_data spreadsheet_id sheet_name data_list group_name wr w =
     (case write_hourly_try spreadsheet_id sheet_name data_list group_name wr w of
        (Inl e, wr', w') \<Rightarrow> (False, wr', w')
      | (Inr ok, wr', w') \<Rightarrow> (ok, wr', w'))"

subsection \<open>Sample sheets\<close>

text \<open>
  A spreadsheet \<open>SHEET1\<close> with the sheet \<open>Report\<close>, read at 2025-01-10 14:36:40 in India,
  and one report record of that day for the group \<open>G1\<close>. In \<open>scattered_sheet\<close> the rows
  of that day and group are not next to each other; \<open>ahead_sheet\<close> holds a row of the
  group dated the day after, as a reporting server east of India produces it in its
  first hours of the day.
\<close>

definition header :: "string list" where
  "header = [''time'', ''group'', ''date'', ''channel'', ''reg'', ''payers'', ''paid'',
             ''deposit'', ''withdraw'', ''diff'']"

definition sample_sheet :: "string list list \<Rightarrow> exn option list \<Rightarrow> sheets_world" where
  "sample_sheet rows fs =
     \<lparr>clock = 1736500000, ss_id = ''SHEET1'', title = ''Report'', sheet_id = 7,
      grid = header # rows, faults = fs\<rparr>"

definition scattered_rows :: "string list list" where
  "scattered_rows =
     [ [''t1'', ''G1'', ''2025-01-10'', ''A''], [''t2'', ''G1'', ''2025-01-09'', ''B''],
      [''t3'', ''G1'', ''2025-01-10'', ''C''], [''t4'', ''G1'', ''2025-01-08'', ''D'']]"

definition ahead_rows :: "string list list" where
  "ahead_rows =
     [ [''t1'', ''G1'', ''2025-01-11'', ''A''], [''t2'', ''G1'', ''2025-01-09'', ''B'']]"

definition sample_reports :: "report list" where
  "sample_reports = [ [(''create_time'', ''2025-01-10''), (''channel'', ''FBA8-18'')]]"

definition sample_row :: "string list" where
  "sample_row = [''2025-01-10 14:36:40'', ''G1'', ''2025-01-10'', ''FBA8-18'',
                 ''0'', ''0'', ''0'', ''0'', ''0'', ''0'']"

text \<open>Writer and world after \<open>write_daily_data\<close> has run once on \<open>scattered_rows\<close>.\<close>

definition once_written :: "writer \<times> sheets_world" where
  "once_written =
     (\<lparr>service = True, last_request_time = 8682500024 / 5, min_request_interval = 6 / 5,
       max_retries = 5, base_delay = 3, sheet_id_cache = [(''SHEET1_Report'', 7)],
       trace = [Invoked 1736500000, RateSleep (6 / 5), Invoked (8682500006 / 5),
                RateSleep (6 / 5), Invoked (8682500012 / 5), RateSleep (6 / 5),
                Invoked (8682500018 / 5), RateSleep (6 / 5), Invoked (8682500024 / 5)]\<rparr>,
      \<lparr>clock = 8682500024 / 5, ss_id = ''SHEET1'', title = ''Report'', sheet_id = 7,
       grid = [header, sample_row, [''t2'', ''G1'', ''2025-01-09'', ''B''],
               [''t3'', ''G1'', ''2025-01-10'', ''C'']],
       faults = []\<rparr>)"

section \<open>Operation queue (google\_sheets\_writer.py)\<close>

text \<open>
  The tasks of the event loop around the queue: the callers of \<open>_queue_operation\<close>, and
  one task for every \<open>asyncio.create_task(self._start_queue_worker())\<close>. A task runs alone
  from one \<open>await\<close> to the next, so a run of the program is a list of such pieces, in the
  order the event loop picks them; every order is allowed here. The state holds the
  queue (the submissions by number, oldest first), the futures that are resolved, the
  flag \<open>_queue_worker_running\<close>, where each worker task stands, and the writer and the
  world the operations act on. \<open>submitted\<close> counts the submissions and \<open>resolved\<close> lists
  the futures in the order they were resolved; both are for the record only.
\<close>

datatype worker = Created | Quit | Waiting | Holding nat nat

record ('a, 'w) queue_state =
  submitted :: nat
  pending :: "nat list"
  futures :: "nat \<rightharpoonup> exn + 'a"
  resolved :: "nat list"
  queue_worker_running :: bool
  workers :: "worker list"
  the_writer :: writer
  the_world :: "'w world_scheme"

definition start_state :: "writer \<Rightarrow> 'w world_scheme \<Rightarrow> ('a, 'w) queue_state" where
  "start_state wr w =
     \<lparr>submitted = 0, pending = [], futures = Map.empty, resolved = [],
      queue_worker_running = False, workers = [], the_writer = wr, the_world = w\<rparr>"

text \<open>
  The pieces. \<open>Submit\<close> is \<open>_queue_operation\<close> up to \<open>await future\<close>: a worker task is
  created if the flag is not set, and the operation is put on the queue. \<open>Start i\<close> is
  the head of \<open>_start_queue_worker\<close> in task \<open>i\<close>: it returns if the flag is set, else it
  sets the flag and enters the loop. \<open>Get i\<close> is the return of
  \<open>wait_for(self._operation_queue.get(), 30)\<close>, with the oldest submission or with a
  timeout when the queue is empty. \<open>Attempt i\<close> is one round of the loop of
  \<open>_execute_with_retry\<close> for the submission task \<open>i\<close> holds, with its sleeps: either the
  future is resolved with the result or the exception, or the back-off is slept and
  the next round is due.
\<close>

datatype piece = Submit | Start nat | Get nat | Attempt nat

definition resolve ::
  "nat \<Rightarrow> nat \<Rightarrow> exn + 'a \<Rightarrow> writer \<Rightarrow> 'w world_scheme \<Rightarrow> ('a, 'w) queue_state
     \<Rightarrow> ('a, 'w) queue_state" where
  "resolve i ident r wr w s =
     s\<lparr>futures := (futures s)(ident \<mapsto> r), resolved := resolved s @ [ident],
       workers := (workers s)[i := Waiting], the_writer := wr, the_world := w\<rparr>"

fun queue_step ::
  "(nat \<Rightarrow> ('a, 'w) operation) \<Rightarrow> piece \<Rightarrow> ('a, 'w) queue_state \<Rightarrow> ('a, 'w) queue_state option" where
  "queue_step ops Submit s =
     Some (s\<lparr>submitted := submitted s + 1, pending := pending s @ [submitted s],
             workers := (if queue_worker_running s then workers s else workers s @ [Created])\<rparr>)"
| "queue_step ops (Start i) s =
     (if i < length (workers s) \<and> workers s ! i = Created
      then Some (if queue_worker_running s then s\<lparr>workers := (workers s)[i := Quit]\<rparr>
                 else s\<lparr>queue_worker_running := True, workers := (workers s)[i := Waiting]\<rparr>)
      else None)"
| "queue_step ops (Get i) s =
     (if i < length (workers s) \<and> workers s ! i = Waiting
      then (case pending s of
              [] \<Rightarrow> Some s
            | ident # rest \<Rightarrow>
                Some (s\<lparr>pending := rest, workers := (workers s)[i := Holding ident 0]\<rparr>))
      else None)"
| "queue_step ops (Attempt i) s =
     (if i < length (workers s)
      then (case workers s ! i of
              Holding ident attempt \<Rightarrow>
                (case try_operation (ops ident) (the_writer s) (the_world s) of
                   (Inr result, wr2, w2) \<Rightarrow> Some (resolve i ident (Inr result) wr2 w2 s)
                 | (Inl e, wr2, w2) \<Rightarrow>
                     if retryable e \<and> attempt < max_retries (the_writer s)
                     then (case backoff attempt wr2 w2 of
                             (wr3, w3) \<Rightarrow>
                               Some (s\<lparr>workers := (workers s)[i := Holding ident (attempt + 1)],
                                       the_writer := wr3, the_world := w3\<rparr>))
                     else Some (resolve i ident (Inl e) wr2 w2 s))
            | other \<Rightarrow> None)
      else None)"

fun queue_run ::
  "(nat \<Rightarrow> ('a, 'w) operation) \<Rightarrow> piece list \<Rightarrow> ('a, 'w) queue_state \<Rightarrow> ('a, 'w) queue_state option" where
  "queue_run ops [] s = Some s"
| "queue_run ops (p # ps) s = (case queue_step ops p s of None \<Rightarrow> None | Some s' \<Rightarrow> queue_run ops ps s')"

text \<open>
  The submissions whose operation is being executed, and the tasks that are inside the
  worker loop.
\<close>

fun holding :: "worker \<Rightarrow> nat list" where
  "holding (Holding ident attempt) = [ident]"
| "holding w = []"

definition in_flight :: "('a, 'w) queue_state \<Rightarrow> nat list" where
  "in_flight s = concat (map holding (workers s))"

fun in_loop :: "worker \<Rightarrow> bool" where
  "in_loop Waiting = True"
| "in_loop (Holding ident attempt) = True"
| "in_loop w = False"

definition queue_inv :: "(nat \<Rightarrow> ('a, 'w) operation) \<Rightarrow> ('a, 'w) queue_state \<Rightarrow> bool" where
  "queue_inv ops s =
     (length (filter in_loop (workers s)) = (if queue_worker_running s then 1 else 0) \<and>
      resolved s @ in_flight s @ pending s = [0 ..< submitted s] \<and>
      dom (futures s) = set (resolved s) \<and>
      (\<forall>ident r. futures s ident = Some r \<longrightarrow> (\<exists>v. r = fst (ops ident v))) \<and>
      (queue_worker_running s \<or> submitted s = 0 \<or> Created \<in> set (workers s)))"

text \<open>Two operations for a sample run: the first is refused with HTTP 400, the others succeed.\<close>

definition sample_operations :: "nat \<Rightarrow> (unit, unit) operation" where
  "sample_operations ident = always (if ident = 0 then Inl (HttpError 400) else Inr ())"

definition sample_schedule :: "piece list" where
  "sample_schedule = [Submit, Submit, Start 0, Start 1, Get 0, Attempt 0, Get 0, Attempt 0]"

section \<open>Verified properties\<close>

subsection \<open>The retry executor\<close>

lemma rld_fields:
  "rate_limit_delay wr w = (wr1, w1) \<Longrightarrow>
     base_delay wr1 = base_delay wr \<and> max_retries wr1 = max_retries wr \<and>
     min_request_interval wr1 = min_request_interval wr \<and> service wr1 = service wr \<and>
     sheet_id_cache wr1 = sheet_id_cache wr"
  unfolding rate_limit_delay_def log_event_def Let_def
  by (cases "clock w - last_request_time wr < min_request_interval wr") auto

lemma rld_trace:
  "rate_limit_delay wr w = (wr1, w1) \<Longrightarrow>
     \<exists>es. trace wr1 = trace wr @ es \<and> steps es = [] \<and> invoke_times es = []"
  unfolding rate_limit_delay_def log_event_def Let_def
  by (cases "clock w - last_request_time wr < min_request_interval wr") auto

lemma rld_time:
  "rate_limit_delay wr w = (wr1, w1) \<Longrightarrow>
     last_request_time wr1 = clock w1 \<and> last_request_time wr + min_request_interval wr \<le> clock w1"
  unfolding rate_limit_delay_def log_event_def Let_def sleep_def
  by (cases "clock w - last_request_time wr < min_request_interval wr") auto

lemma steps_append: "steps (es @ fs) = steps es @ steps fs"
  by (induction es rule: steps.induct) auto

lemma invoke_times_append: "invoke_times (es @ fs) = invoke_times es @ invoke_times fs"
  by (induction es rule: invoke_times.induct) auto

lemma try_operation_facts:
  assumes "try_operation operation wr w = (r, wr2, w2)"
  shows "\<exists>es. trace wr2 = trace wr @ es \<and> steps es = [Call] \<and>
              invoke_times es = [last_request_time wr2]"
    and "last_request_time wr + min_request_interval wr \<le> last_request_time wr2"
    and "base_delay wr2 = base_delay wr" and "min_request_interval wr2 = min_request_interval wr"
    and "max_retries wr2 = max_retries wr" and "service wr2 = service wr"
    and "sheet_id_cache wr2 = sheet_id_cache wr"
    and "(r, w2) = operation (snd (rate_limit_delay wr w))"
proof -
  obtain wr1 w1 where d: "rate_limit_delay wr w = (wr1, w1)" by (cases "rate_limit_delay wr w")
  obtain r' w2' where o: "operation w1 = (r', w2')" by (cases "operation w1")
  from assms d o have eq: "r = r'" "w2 = w2'" "wr2 = log_event (Invoked (clock w1)) wr1"
    by (simp_all add: try_operation_def)
  from rld_trace [OF d] obtain es where es: "trace wr1 = trace wr @ es" "steps es = []" "invoke_times es = []"
    by blast
  have "trace wr2 = trace wr @ (es @ [Invoked (clock w1)])" using eq es by (simp add: log_event_def)
  moreover have "steps (es @ [Invoked (clock w1)]) = [Call]" using es by (simp add: steps_append)
  moreover have "invoke_times (es @ [Invoked (clock w1)]) = [last_request_time wr2]"
    using es eq rld_time [OF d] by (simp add: invoke_times_append log_event_def)
  ultimately show "\<exists>es. trace wr2 = trace wr @ es \<and> steps es = [Call] \<and>
              invoke_times es = [last_request_time wr2]" by blast
  show "last_request_time wr + min_request_interval wr \<le> last_request_time wr2"
    using eq rld_time [OF d] by (simp add: log_event_def)
  show "base_delay wr2 = base_delay wr" "min_request_interval wr2 = min_request_interval wr"
     "max_retries wr2 = max_retries wr" "service wr2 = service wr"
     "sheet_id_cache wr2 = sheet_id_cache wr"
    using eq rld_fields [OF d] by (simp_all add: log_event_def)
  show "(r, w2) = operation (snd (rate_limit_delay wr w))" using d o eq by simp
qed

lemma backoff_facts:
  assumes "backoff attempt wr w = (wr3, w3)"
  shows "trace wr3 = trace wr @ [Backoff attempt (base_delay wr * 2 ^ attempt)]"
    and "last_request_time wr3 = last_request_time wr"
    and "base_delay wr3 = base_delay wr" and "min_request_interval wr3 = min_request_interval wr"
    and "max_retries wr3 = max_retries wr" and "service wr3 = service wr"
    and "sheet_id_cache wr3 = sheet_id_cache wr"
  using assms by (auto simp: backoff_def log_event_def Let_def)















subsection \<open>The daily task\<close>

lemma replace_time_mod:
  assumes "replace_time utc_now hour minute = Some t"
  shows "t mod day = hour * 3600000000 + minute * 60000000"
    and "utc_now - day < t" and "t \<le> utc_now + day - 1"
proof -
  let ?off = "hour * 3600000000 + minute * 60000000"
  from assms have v: "0 \<le> hour" "hour < 24" "0 \<le> minute" "minute < 60"
    and t: "t = utc_now - utc_now mod day + ?off"
    by (auto simp: replace_time_def split: if_splits)
  have off: "0 \<le> ?off" "?off < day" using v by (simp_all add: day_def)
  have "utc_now - utc_now mod day = day * (utc_now div day)"
    by (simp add: minus_mod_eq_mult_div)
  then have "t = ?off + day * (utc_now div day)" using t by simp
  then have "t mod day = ?off mod day" by (metis mod_mult_self2)
  then show "t mod day = ?off" using off by simp
  have m: "0 \<le> utc_now mod day" "utc_now mod day < day" by (simp_all add: day_def)
  show "utc_now - day < t" using t off m by linarith
  show "t \<le> utc_now + day - 1" using t off m by linarith
qed

lemma next_target_facts:
  assumes "next_target utc_now hour minute = Some t"
  shows "t mod day = hour * 3600000000 + minute * 60000000"
    and "utc_now < t" and "t \<le> utc_now + day"
proof -
  from assms obtain t0 where r: "replace_time utc_now hour minute = Some t0"
    and t: "t = (if t0 \<le> utc_now then t0 + day else t0)"
    by (auto simp: next_target_def split: option.splits)
  note f = replace_time_mod [OF r]
  show "t mod day = hour * 3600000000 + minute * 60000000" using t f(1) by simp
  show "utc_now < t" using t f(2) by (simp split: if_splits)
  show "t \<le> utc_now + day" using t f(3) by (simp split: if_splits)
qed


lemma same_phase_next_day:
  fixes a b :: int
  assumes "a mod day = b mod day" and "a < b" and "b < a + 2 * day"
  shows "b = a + day"
proof -
  have "b mod day = a mod day" using assms(1) by simp
  then have "day dvd b - a" by (simp add: mod_eq_dvd_iff)
  then obtain k where k: "b - a = day * k" by (auto simp: dvd_def)
  have "0 < 86400000000 * k" "86400000000 * k < 2 * 86400000000"
    using assms(2,3) k by (simp_all add: day_def)
  then have "k = 1" by linarith
  then show ?thesis using k by simp
qed

text \<open>
  Claim C8. For a valid \<open>hour:minute\<close>, any start instant and any sequence of job runs
  (durations and outcomes), the daily task never stops by itself: every job run is fired,
  whether the runs before it returned or raised. Every firing instant is an occurrence
  of \<open>hour:minute\<close> in UTC. The first one is strictly after the start and at most 24 hours
  later; each later one is strictly after the end of the job before it and at most 24 hours
  after that end; and whenever the job took less than a day, the next firing is exactly
  24 hours after the previous firing, whatever the job's duration was.
\<close>

theorem daily_task_alignment:
  assumes "0 \<le> hour" "hour < 24" "0 \<le> minute" "minute < 60"
  shows "\<exists>log. run_daily_task hour minute utc_now jobs = Some log \<and>
           map snd log = map snd jobs \<and>
           (\<forall>t \<in> fst ` set log. t mod day = hour * 3600000000 + minute * 60000000) \<and>
           (log \<noteq> [] \<longrightarrow> utc_now < fst (hd log) \<and> fst (hd log) \<le> utc_now + day) \<and>
           (\<forall>i. Suc i < length log \<longrightarrow>
                fst (log ! i) + int (fst (jobs ! i)) < fst (log ! Suc i) \<and>
                fst (log ! Suc i) \<le> fst (log ! i) + int (fst (jobs ! i)) + day) \<and>
           (\<forall>i. Suc i < length log \<and> int (fst (jobs ! i)) < day \<longrightarrow>
                fst (log ! Suc i) = fst (log ! i) + day)"
proof (induction jobs arbitrary: utc_now)
  case Nil
  show ?case by simp
next
  case (Cons job jobs)
  obtain duration outcome where job: "job = (duration, outcome)" by (cases job)
  obtain t where nt: "next_target utc_now hour minute = Some t"
    using assms by (simp add: next_target_def replace_time_def)
  note f = next_target_facts [OF nt]
  from Cons.IH [of "t + int duration"] obtain rest where
    r: "run_daily_task hour minute (t + int duration) jobs = Some rest"
    and o: "map snd rest = map snd jobs"
    and al: "\<forall>u \<in> fst ` set rest. u mod day = hour * 3600000000 + minute * 60000000"
    and h: "rest \<noteq> [] \<longrightarrow> t + int duration < fst (hd rest) \<and> fst (hd rest) \<le> t + int duration + day"
    and sp: "\<forall>i. Suc i < length rest \<longrightarrow>
                fst (rest ! i) + int (fst (jobs ! i)) < fst (rest ! Suc i) \<and>
                fst (rest ! Suc i) \<le> fst (rest ! i) + int (fst (jobs ! i)) + day"
    and ex: "\<forall>i. Suc i < length rest \<and> int (fst (jobs ! i)) < day \<longrightarrow>
                fst (rest ! Suc i) = fst (rest ! i) + day"
    by blast
  let ?log = "(t, outcome) # rest"
  have run: "run_daily_task hour minute utc_now (job # jobs) = Some ?log"
    using nt r job by simp
  have 1: "map snd ?log = map snd (job # jobs)" using o job by simp
  have 2: "\<forall>u \<in> fst ` set ?log. u mod day = hour * 3600000000 + minute * 60000000"
    using al f(1) by simp
  have 3: "?log \<noteq> [] \<longrightarrow> utc_now < fst (hd ?log) \<and> fst (hd ?log) \<le> utc_now + day"
    using f by simp
  have 4: "fst (?log ! i) + int (fst ((job # jobs) ! i)) < fst (?log ! Suc i) \<and>
           fst (?log ! Suc i) \<le> fst (?log ! i) + int (fst ((job # jobs) ! i)) + day"
    if "Suc i < length ?log" for i
  proof (cases i)
    case 0
    then have "rest \<noteq> []" using that by auto
    then show ?thesis using h 0 job by (simp add: hd_conv_nth)
  next
    case (Suc j)
    then show ?thesis using sp that by simp
  qed
  have 5: "fst (?log ! Suc i) = fst (?log ! i) + day"
    if "Suc i < length ?log" "int (fst ((job # jobs) ! i)) < day" for i
  proof (cases i)
    case 0
    then have ne: "rest \<noteq> []" using that by auto
    then have "fst (hd rest) mod day = t mod day" using al f(1) by (cases rest) auto
    moreover have "t < fst (hd rest)" "fst (hd rest) < t + 2 * day"
      using h ne that(2) 0 job by auto
    ultimately have "fst (hd rest) = t + day" by (intro same_phase_next_day) simp_all
    then show ?thesis using 0 ne by (simp add: hd_conv_nth)
  next
    case (Suc j)
    then show ?thesis using ex that by simp
  qed
  show ?case
    apply (rule exI [of _ ?log])
    using run 1 2 3 4 5 by blast
qed


theorem daily_task_alignment_witness:
  "run_daily_task 0 0 (20000 * day + 86340000000)
       [(5000000, Returned), (90000000000, Raised ''boom''), (0, Returned)] =
     Some [(20001 * day, Returned), (20002 * day, Raised ''boom''), (20004 * day, Returned)]"
proof -
  have d: "day = 86400000000" by (simp add: day_def)
  from daily_task_alignment [of 0 0 "20000 * day + 86340000000"
       "[(5000000, Returned), (90000000000, Raised ''boom''), (0, Returned)]"]
  obtain log where "run_daily_task 0 0 (20000 * day + 86340000000)
       [(5000000, Returned), (90000000000, Raised ''boom''), (0, Returned)] = Some log"
    by auto
  then show ?thesis
    by (simp add: next_target_def replace_time_def d)
qed

subsection \<open>Token cache and login\<close>





















subsection \<open>The request signature\<close>

lemma insort_key_map_snd:
  "insort_key fst (fst kv, g (snd kv)) (map (\<lambda>kv. (fst kv, g (snd kv))) ys) =
     map (\<lambda>kv. (fst kv, g (snd kv))) (insort_key fst kv ys)"
  by (induction ys) auto

lemma sort_key_map_snd:
  "sort_key fst (map (\<lambda>kv. (fst kv, g (snd kv))) xs) =
     map (\<lambda>kv. (fst kv, g (snd kv))) (sort_key fst xs)"
  by (induction xs) (simp_all add: insort_key_map_snd)

lemma sort_keys_signed: "\<not> is_list v \<Longrightarrow> sort_keys (signed_value v) = signed_value v"
  by (cases v) simp_all

lemma sort_keys_scalar: "scalar v \<Longrightarrow> sort_keys v = v"
  by (cases v) simp_all

lemma signed_scalar: "scalar v \<Longrightarrow> signed_value v = v"
  by (cases v) simp_all

lemma sort_and_stringify_signed: "sort_and_stringify v = signed_value v"
proof (induction v rule: sort_and_stringify.induct)
  case (1 items)
  let ?P = "\<lambda>kv. fst kv \<notin> set exclude_keys \<and> \<not> is_list (snd kv)"
  let ?kept = "filter ?P items"
  have ih: "map (\<lambda>kv. (fst kv, sort_and_stringify (snd kv))) (filter ?P (sort_key fst items)) =
            map (\<lambda>kv. (fst kv, signed_value (snd kv))) (filter ?P (sort_key fst items))"
    by (rule map_cong [OF refl]) (simp add: 1)
  have "map (\<lambda>kv. (fst kv, sort_keys (snd kv))) (map (\<lambda>kv. (fst kv, signed_value (snd kv))) ?kept) =
        map (\<lambda>kv. (fst kv, signed_value (snd kv))) ?kept"
    by (simp add: sort_keys_signed)
  then have "sort_keys (JDict (map (\<lambda>kv. (fst kv, signed_value (snd kv))) ?kept)) =
        JDict (sort_key fst (map (\<lambda>kv. (fst kv, signed_value (snd kv))) ?kept))"
    by (simp only: sort_keys.simps)
  also have "\<dots> = JDict (map (\<lambda>kv. (fst kv, signed_value (snd kv))) (filter ?P (sort_key fst items)))"
    by (simp only: sort_key_map_snd filter_sort)
  finally show ?case by (simp only: sort_and_stringify.simps signed_value.simps canonical_def ih)
qed simp_all


text \<open>
  Claim C9, as the code has it. For every field dictionary the signature is the
  upper-case hexadecimal MD5 of the canonical serialization (keys sorted, no whitespace)
  of the fields other than \<open>timestamp\<close>, \<open>signature\<close> and \<open>track\<close> and other than those
  whose value is a list, a dictionary-valued field entering as the string of its own
  serialization under the same rule. When no field holds a list or a dictionary, that is
  the signature as the specification words it.
\<close>

theorem generate_signature_signed_fields:
  "generate_signature (JDict items) =
     Inr (upper (md5_hexdigest (canonical (JDict
       (map (\<lambda>kv. (fst kv, signed_value (snd kv)))
          (filter (\<lambda>kv. fst kv \<notin> set exclude_keys \<and> \<not> is_list (snd kv)) items)))))) \<and>
   ((\<forall>kv \<in> set items. scalar (snd kv)) \<longrightarrow>
      generate_signature (JDict items) = Inr (spec_signature items))"
proof (intro conjI impI)
  let ?P = "\<lambda>kv. fst kv \<notin> set exclude_keys \<and> \<not> is_list (snd kv)"
  have g: "generate_signature (JDict items) =
     Inr (upper (md5_hexdigest (canonical (JDict
       (map (\<lambda>kv. (fst kv, signed_value (snd kv))) (filter ?P items))))))"
    by (simp only: generate_signature_def sort_and_stringify_signed signed_value.simps json.case)
  then show "generate_signature (JDict items) =
     Inr (upper (md5_hexdigest (canonical (JDict
       (map (\<lambda>kv. (fst kv, signed_value (snd kv))) (filter ?P items))))))" .
  assume sc: "\<forall>kv \<in> set items. scalar (snd kv)"
  have nl: "\<not> is_list v" if "scalar v" for v using that by (cases v) simp_all
  have f: "filter ?P items = filter (\<lambda>kv. fst kv \<notin> set exclude_keys) items"
    by (rule filter_cong [OF refl]) (use sc nl in blast)
  have m: "map (\<lambda>kv. (fst kv, signed_value (snd kv))) (filter (\<lambda>kv. fst kv \<notin> set exclude_keys) items) =
           filter (\<lambda>kv. fst kv \<notin> set exclude_keys) items"
    by (rule map_idI) (use sc signed_scalar in auto)
  show "generate_signature (JDict items) = Inr (spec_signature items)"
    by (simp only: g f m spec_signature_def)
qed

text \<open>
  Claim C9 as stated fails on a dictionary with a list-valued field: the code signs
  \<open>{"b":"x"}\<close>, the canonical serialization of all fields is \<open>{"a":[1],"b":"x"}\<close>, and
  the two MD5 digests differ.
\<close>

theorem generate_signature_list_counterexample:
  "generate_signature (JDict [(''b'', JStr ''x''), (''a'', JList [JInt 1])]) =
     Inr ''9AEF528D1993DD3AFD94E0F6B7E8E3BC'' \<and>
   spec_signature [(''b'', JStr ''x''), (''a'', JList [JInt 1])] =
     ''3828EE017A02A8F84DDC18D10F0989F7''"
  by code_simp

theorem generate_signature_signed_fields_witness:
  "generate_signature (JDict [(''vCode'', JStr ''123456''), (''timestamp'', JInt 17), (''language'', JStr ''zh'')]) =
     Inr (spec_signature [(''vCode'', JStr ''123456''), (''timestamp'', JInt 17), (''language'', JStr ''zh'')]) \<and>
   spec_signature [(''vCode'', JStr ''123456''), (''timestamp'', JInt 17), (''language'', JStr ''zh'')] =
     ''534374A57DF32E3B4EFA5C8E4AB3D1E1''"
proof -
  have "generate_signature (JDict [(''vCode'', JStr ''123456''), (''timestamp'', JInt 17), (''language'', JStr ''zh'')]) =
     Inr (spec_signature [(''vCode'', JStr ''123456''), (''timestamp'', JInt 17), (''language'', JStr ''zh'')])"
  proof -
    have "\<forall>kv \<in> set [(''vCode'', JStr ''123456''), (''timestamp'', JInt 17), (''language'', JStr ''zh'')].
            scalar (snd kv)"
      by simp
    with generate_signature_signed_fields
      [of "[(''vCode'', JStr ''123456''), (''timestamp'', JInt 17), (''language'', JStr ''zh'')]"]
    show ?thesis by blast
  qed
  moreover have "spec_signature [(''vCode'', JStr ''123456''), (''timestamp'', JInt 17), (''language'', JStr ''zh'')] =
     ''534374A57DF32E3B4EFA5C8E4AB3D1E1''"
    by code_simp
  ultimately show ?thesis by simp
qed

subsection \<open>The write functions\<close>









lemma remote_ss_id:
  assumes "\<And>v r v'. call v = (r, v') \<Longrightarrow> ss_id v' = ss_id v"
  shows "ss_id (snd (remote spreadsheet_id call v)) = ss_id v"
proof -
  let ?v1 = "v\<lparr>faults := tl (faults v)\<rparr>"
  have c: "ss_id (snd (call ?v1)) = ss_id v" using assms [of ?v1] by (cases "call ?v1") simp
  show ?thesis
  proof (cases "faults v")
    case Nil
    then show ?thesis using c by (simp add: remote_def Let_def)
  next
    case (Cons f fs)
    then show ?thesis using c by (cases f) (simp_all add: remote_def Let_def)
  qed
qed





lemma values_update_ss_id: "ss_id (snd (values_update s n vals v)) = ss_id v"
  unfolding values_update_def by (rule remote_ss_id) (auto split: if_splits)












subsection \<open>Writes on sample sheets\<close>

text \<open>
  Claim C1 at a sheet where the rows of the date and group are not adjacent (rows 2 and 4).
  \<open>write_daily_data\<close> sends the two delete ranges \<open>[1, 2)\<close> and \<open>[3, 4)\<close> in one batch;
  the service applies the second to the grid the first left, so it removes the row dated
  2025-01-08 and keeps the second row dated 2025-01-10. After two identical runs, both
  returning \<open>True\<close>, the sheet holds two rows of (2025-01-10, G1) for one report record,
  and a row of another date is gone.
\<close>

theorem write_daily_twice_scattered:
  "write_daily_data ''SHEET1'' ''Report'' sample_reports ''G1'' (init_writer True)
       (sample_sheet scattered_rows []) = (True, once_written) \<and>
   (case write_daily_data ''SHEET1'' ''Report'' sample_reports ''G1''
           (fst once_written) (snd once_written) of
      (ok, wr2, w2) \<Rightarrow>
        (ok, grid w2, length (filter (same_date_group ''2025-01-10'' ''G1'') (grid w2)),
         length sample_reports)) =
   (True,
    [header,
     [''2025-01-10 14:36:44'', ''G1'', ''2025-01-10'', ''FBA8-18'', ''0'', ''0'', ''0'', ''0'', ''0'', ''0''],
     [''t2'', ''G1'', ''2025-01-09'', ''B''],
     [''t3'', ''G1'', ''2025-01-10'', ''C'']],
    2, 1)"
  by code_simp

text \<open>
  Claim C2 at a sheet that holds a row of the group dated 2025-01-11 while the date in
  India is 2025-01-10: \<open>date_diff\<close> is -1, the test \<open>date_diff > 0\<close> fails, and the row,
  whose date parses and is not today's, is still there after \<open>write_hourly_data\<close>
  returned \<open>True\<close>. The row dated 2025-01-09 is deleted.
\<close>

theorem write_hourly_keeps_later_date:
  "(case write_hourly_data ''SHEET1'' ''Report'' sample_reports ''G1'' (init_writer True)
           (sample_sheet ahead_rows []) of
      (ok, wr1, w1) \<Rightarrow>
        (ok, grid w1, india_date (clock w1), strptime_date ''2025-01-10'',
         strptime_date ''2025-01-11'')) =
   (True,
    [header, sample_row, [''t1'', ''G1'', ''2025-01-11'', ''A'']],
    739261, Some 739261, Some 739262)"
  by code_simp

subsection \<open>The operation queue\<close>

lemma not_in_loop_holding: "\<not> in_loop w \<Longrightarrow> holding w = []"
  by (cases w) simp_all

lemma filter_update_length:
  "i < length ws \<Longrightarrow>
     length (filter P (ws[i := x])) + (if P (ws ! i) then 1 else 0) =
     length (filter P ws) + (if P x then 1 else 0)"
proof (induction ws arbitrary: i)
  case Nil
  then show ?case by simp
next
  case (Cons w ws)
  then show ?case by (cases i) auto
qed

lemma idle_workers: "filter in_loop ws = [] \<Longrightarrow> concat (map holding ws) = []"
  by (induction ws) (auto simp: not_in_loop_holding split: if_splits)

lemma only_worker:
  assumes "length (filter in_loop ws) = 1" and "i < length ws" and "in_loop (ws ! i)"
  shows "concat (map holding (ws[i := x])) = holding x"
    and "concat (map holding ws) = holding (ws ! i)"
proof -
  let ?l = "take i ws" and ?r = "drop (Suc i) ws"
  have ws: "ws = ?l @ ws ! i # ?r" using assms(2) by (rule id_take_nth_drop)
  have "length (filter in_loop (?l @ ws ! i # ?r)) = 1"
    using assms(1) ws by simp
  then have f: "filter in_loop ?l = []" "filter in_loop ?r = []"
    using assms(3) by simp_all
  have c: "concat (map holding ?l) = []" "concat (map holding ?r) = []"
    by (rule idle_workers [OF f(1)], rule idle_workers [OF f(2)])
  have "ws[i := x] = ?l @ x # ?r" using assms(2) by (rule upd_conv_take_nth_drop)
  then have "concat (map holding (ws[i := x])) = concat (map holding ?l) @ holding x @ concat (map holding ?r)"
    by simp
  then show "concat (map holding (ws[i := x])) = holding x" by (simp only: c append_Nil append_Nil2)
  have "concat (map holding ws) = concat (map holding (?l @ ws ! i # ?r))"
    using ws by simp
  then have "concat (map holding ws) = concat (map holding ?l) @ holding (ws ! i) @ concat (map holding ?r)"
    by simp
  then show "concat (map holding ws) = holding (ws ! i)" by (simp only: c append_Nil append_Nil2)
qed

lemma no_worker:
  assumes "length (filter in_loop ws) = 0"
  shows "concat (map holding ws) = []"
  using assms by (intro idle_workers) simp


lemma same_holding:
  "i < length ws \<Longrightarrow> holding (ws ! i) = holding x \<Longrightarrow>
     concat (map holding (ws[i := x])) = concat (map holding ws)"
proof -
  assume a: "i < length ws" "holding (ws ! i) = holding x"
  have "map holding (ws[i := x]) = (map holding ws)[i := holding x]" by (rule map_update)
  also have "\<dots> = (map holding ws)[i := (map holding ws) ! i]" using a by simp
  also have "\<dots> = map holding ws" by (rule list_update_id)
  finally show ?thesis by simp
qed

lemma worker_in_loop:
  assumes "length (filter in_loop ws) = (if flag then 1 else 0)" and "i < length ws"
    and "in_loop (ws ! i)"
  shows "flag" and "length (filter in_loop ws) = 1"
proof -
  have "ws ! i \<in> set (filter in_loop ws)" using assms(2,3) by simp
  then have "filter in_loop ws \<noteq> []" by (metis empty_iff list.set(1))
  then have "length (filter in_loop ws) \<noteq> 0" by simp
  then show flag using assms(1) by (cases flag) simp_all
  then show "length (filter in_loop ws) = 1" using assms(1) by simp
qed

lemma submit_inv:
  assumes "queue_inv ops s" and "queue_step ops Submit s = Some s'"
  shows "queue_inv ops s'"
proof -
  let ?ws = "if queue_worker_running s then workers s else workers s @ [Created]"
  have s': "s' = s\<lparr>submitted := submitted s + 1, pending := pending s @ [submitted s], workers := ?ws\<rparr>"
    using assms(2) by simp
  have 1: "length (filter in_loop ?ws) = length (filter in_loop (workers s))" by simp
  have 2: "concat (map holding ?ws) = concat (map holding (workers s))" by simp
  have 3: "resolved s @ in_flight s @ pending s = [0 ..< submitted s]"
    using assms(1) by (simp add: queue_inv_def)
  have 4: "resolved s @ concat (map holding ?ws) @ pending s @ [submitted s] = [0 ..< submitted s + 1]"
    using 3 unfolding 2 in_flight_def by simp
  have 5: "queue_worker_running s \<or> Created \<in> set ?ws" by simp
  show ?thesis
    using assms(1) 1 4 5 unfolding s' queue_inv_def in_flight_def by simp
qed

lemma start_inv:
  assumes "queue_inv ops s" and "queue_step ops (Start i) s = Some s'"
  shows "queue_inv ops s'"
proof -
  have i: "i < length (workers s)" "workers s ! i = Created"
    using assms(2) by (auto split: if_splits)
  show ?thesis
  proof (cases "queue_worker_running s")
    case True
    then have s': "s' = s\<lparr>workers := (workers s)[i := Quit]\<rparr>" using assms(2) i by simp
    have 1: "length (filter in_loop ((workers s)[i := Quit])) = length (filter in_loop (workers s))"
      using filter_update_length [of i "workers s" in_loop Quit] i by simp
    have 2: "concat (map holding ((workers s)[i := Quit])) = concat (map holding (workers s))"
      using i by (intro same_holding) simp_all
    show ?thesis using assms(1) True 1 2 unfolding s' queue_inv_def in_flight_def by simp
  next
    case False
    then have s': "s' = s\<lparr>queue_worker_running := True, workers := (workers s)[i := Waiting]\<rparr>"
      using assms(2) i by simp
    have "length (filter in_loop (workers s)) = 0" using assms(1) False by (simp add: queue_inv_def)
    then have 1: "length (filter in_loop ((workers s)[i := Waiting])) = 1"
      using filter_update_length [of i "workers s" in_loop Waiting] i by simp
    have 2: "concat (map holding ((workers s)[i := Waiting])) = concat (map holding (workers s))"
      using i by (intro same_holding) simp_all
    show ?thesis using assms(1) 1 2 unfolding s' queue_inv_def in_flight_def by simp
  qed
qed

lemma get_inv:
  assumes "queue_inv ops s" and "queue_step ops (Get i) s = Some s'"
  shows "queue_inv ops s'"
proof (cases "pending s")
  case Nil
  then have "s' = s" using assms(2) by (auto split: if_splits)
  then show ?thesis using assms(1) by simp
next
  case (Cons ident rest)
  have i: "i < length (workers s)" "workers s ! i = Waiting"
    using assms(2) by (auto split: if_splits)
  have s': "s' = s\<lparr>pending := rest, workers := (workers s)[i := Holding ident 0]\<rparr>"
    using assms(2) i Cons by simp
  have c: "length (filter in_loop (workers s)) = (if queue_worker_running s then 1 else 0)"
    using assms(1) by (simp add: queue_inv_def)
  have il: "in_loop (workers s ! i)" using i by simp
  note w = worker_in_loop [OF c i(1) il]
  have 1: "length (filter in_loop ((workers s)[i := Holding ident 0])) = 1"
    using filter_update_length [of i "workers s" in_loop "Holding ident 0"] i w by simp
  have 2: "concat (map holding ((workers s)[i := Holding ident 0])) = [ident]"
    using only_worker(1) [OF w(2) i(1) il, of "Holding ident 0"] by simp
  have 3: "concat (map holding (workers s)) = []"
    using only_worker(2) [OF w(2) i(1) il] i by simp
  show ?thesis using assms(1) w(1) 1 2 3 Cons unfolding s' queue_inv_def in_flight_def by simp
qed

lemma resolve_inv:
  assumes "queue_inv ops s" and "i < length (workers s)" and "workers s ! i = Holding ident k"
    and "\<exists>v. r = fst (ops ident v)"
  shows "queue_inv ops (resolve i ident r wr w s)"
    and "resolved (resolve i ident r wr w s) = resolved s @ [ident]"
    and "pending (resolve i ident r wr w s) = pending s"
    and "in_flight s = [ident]" and "in_flight (resolve i ident r wr w s) = []"
    and "queue_worker_running (resolve i ident r wr w s)"
    and "workers (resolve i ident r wr w s) ! i = Waiting"
proof -
  have c: "length (filter in_loop (workers s)) = (if queue_worker_running s then 1 else 0)"
    using assms(1) by (simp add: queue_inv_def)
  have il: "in_loop (workers s ! i)" using assms(3) by simp
  note w = worker_in_loop [OF c assms(2) il]
  have 1: "length (filter in_loop ((workers s)[i := Waiting])) = 1"
    using filter_update_length [of i "workers s" in_loop Waiting] assms(2,3) w by simp
  have 2: "concat (map holding ((workers s)[i := Waiting])) = []"
    using only_worker(1) [OF w(2) assms(2) il, of Waiting] by simp
  have 3: "concat (map holding (workers s)) = [ident]"
    using only_worker(2) [OF w(2) assms(2) il] assms(3) by simp
  show "in_flight s = [ident]" using 3 by (simp add: in_flight_def)
  show "in_flight (resolve i ident r wr w s) = []" using 2 by (simp add: in_flight_def resolve_def)
  show "resolved (resolve i ident r wr w s) = resolved s @ [ident]"
    "pending (resolve i ident r wr w s) = pending s"
    by (simp_all add: resolve_def)
  show "queue_worker_running (resolve i ident r wr w s)" using w(1) by (simp add: resolve_def)
  show "workers (resolve i ident r wr w s) ! i = Waiting" using assms(2) by (simp add: resolve_def)
  have 4: "resolved s @ [ident] @ pending s = [0 ..< submitted s]"
    using assms(1) 3 by (simp add: queue_inv_def in_flight_def)
  have d: "dom (futures s) = set (resolved s)" using assms(1) by (simp add: queue_inv_def)
  have 6: "\<exists>v. q = fst (ops j v)" if "((futures s)(ident \<mapsto> r)) j = Some q" for j q
    using that assms(1,4) by (auto simp: queue_inv_def split: if_splits)
  let ?s = "resolve i ident r wr w s"
  have f: "workers ?s = (workers s)[i := Waiting]" "resolved ?s = resolved s @ [ident]"
    "pending ?s = pending s" "submitted ?s = submitted s" "futures ?s = (futures s)(ident \<mapsto> r)"
    "queue_worker_running ?s = queue_worker_running s"
    by (simp_all add: resolve_def)
  show "queue_inv ops ?s"
    unfolding queue_inv_def in_flight_def f
  proof (intro conjI)
    show "length (filter in_loop ((workers s)[i := Waiting])) = (if queue_worker_running s then 1 else 0)"
      using 1 w(1) by simp
    show "(resolved s @ [ident]) @ concat (map holding ((workers s)[i := Waiting])) @ pending s =
            [0 ..< submitted s]"
      unfolding 2 using 4 by simp
    show "dom ((futures s)(ident \<mapsto> r)) = set (resolved s @ [ident])" using d by simp
    show "\<forall>j q. ((futures s)(ident \<mapsto> r)) j = Some q \<longrightarrow> (\<exists>v. q = fst (ops j v))"
      using 6 by blast
    show "queue_worker_running s \<or> submitted s = 0 \<or> Created \<in> set ((workers s)[i := Waiting])"
      using w(1) by simp
  qed
qed


lemma attempt_resolves:
  assumes "i < length (workers s)" and "workers s ! i = Holding ident k"
    and "try_operation (ops ident) (the_writer s) (the_world s) = (r, wr2, w2)"
    and "\<And>e. r = Inl e \<Longrightarrow> \<not> (retryable e \<and> k < max_retries (the_writer s))"
  shows "queue_step ops (Attempt i) s = Some (resolve i ident r wr2 w2 s)"
proof (cases r)
  case (Inl e)
  then show ?thesis using assms by auto
next
  case (Inr v)
  then show ?thesis using assms(1,2,3) by simp
qed

lemma attempt_retries:
  assumes "i < length (workers s)" and "workers s ! i = Holding ident k"
    and "try_operation (ops ident) (the_writer s) (the_world s) = (Inl e, wr2, w2)"
    and "retryable e" and "k < max_retries (the_writer s)"
    and "backoff k wr2 w2 = (wr3, w3)"
  shows "queue_step ops (Attempt i) s =
           Some (s\<lparr>workers := (workers s)[i := Holding ident (k + 1)],
                   the_writer := wr3, the_world := w3\<rparr>)"
  using assms by simp

lemma retry_inv:
  assumes "queue_inv ops s" and "i < length (workers s)" and "workers s ! i = Holding ident k"
  shows "queue_inv ops (s\<lparr>workers := (workers s)[i := Holding ident k'], the_writer := wr, the_world := w\<rparr>)"
proof -
  have 1: "length (filter in_loop ((workers s)[i := Holding ident k'])) = length (filter in_loop (workers s))"
    using filter_update_length [of i "workers s" in_loop "Holding ident k'"] assms(2,3) by simp
  have 2: "concat (map holding ((workers s)[i := Holding ident k'])) = concat (map holding (workers s))"
    using assms(2,3) by (intro same_holding) simp_all
  have c: "length (filter in_loop (workers s)) = (if queue_worker_running s then 1 else 0)"
    using assms(1) by (simp add: queue_inv_def)
  have "in_loop (workers s ! i)" using assms(3) by simp
  from worker_in_loop(1) [OF c assms(2) this] have "queue_worker_running s" .
  then show ?thesis using assms(1) unfolding queue_inv_def in_flight_def by (simp add: 1 2)
qed

lemma attempt_inv:
  assumes "queue_inv ops s" and "queue_step ops (Attempt i) s = Some s'"
  shows "queue_inv ops s'"
proof -
  have i: "i < length (workers s)" using assms(2) by (auto split: if_splits)
  obtain ident k where h: "workers s ! i = Holding ident k"
    using assms(2) i by (cases "workers s ! i") simp_all
  obtain r wr2 w2 where t: "try_operation (ops ident) (the_writer s) (the_world s) = (r, wr2, w2)"
    by (cases "try_operation (ops ident) (the_writer s) (the_world s)")
  have ex: "\<exists>v. r = fst (ops ident v)"
    using try_operation_facts(8) [OF t] by (metis fst_conv)
  show ?thesis
  proof (cases "\<exists>e. r = Inl e \<and> retryable e \<and> k < max_retries (the_writer s)")
    case True
    then obtain e where e: "r = Inl e" "retryable e" "k < max_retries (the_writer s)" by blast
    obtain wr3 w3 where b: "backoff k wr2 w2 = (wr3, w3)" by (cases "backoff k wr2 w2")
    have "s' = s\<lparr>workers := (workers s)[i := Holding ident (k + 1)], the_writer := wr3, the_world := w3\<rparr>"
      using attempt_retries [where ops = ops, OF i h t [unfolded e(1)] e(2,3) b] assms(2) by simp
    then show ?thesis using retry_inv [OF assms(1) i h] by simp
  next
    case False
    then have "s' = resolve i ident r wr2 w2 s"
      using attempt_resolves [where ops = ops, OF i h t] assms(2) by auto
    then show ?thesis using resolve_inv(1) [OF assms(1) i h ex] by simp
  qed
qed

lemma queue_step_inv:
  "queue_inv ops s \<Longrightarrow> queue_step ops p s = Some s' \<Longrightarrow> queue_inv ops s'"
  by (cases p) (auto intro: submit_inv start_inv get_inv attempt_inv)

lemma queue_run_inv:
  "queue_inv ops s \<Longrightarrow> queue_run ops ps s = Some s' \<Longrightarrow> queue_inv ops s'"
proof (induction ps arbitrary: s)
  case Nil
  then show ?case by simp
next
  case (Cons p ps)
  then obtain s1 where s1: "queue_step ops p s = Some s1" "queue_run ops ps s1 = Some s'"
    by (auto split: option.splits)
  from queue_step_inv [OF Cons.prems(1) s1(1)] Cons.IH s1(2) show ?case by blast
qed

lemma start_state_inv: "queue_inv ops (start_state wr w)"
  by (simp add: queue_inv_def start_state_def in_flight_def)

lemma queue_run_append:
  "queue_run ops ps s = Some s1 \<Longrightarrow> queue_run ops qs s1 = Some s2 \<Longrightarrow>
     queue_run ops (ps @ qs) s = Some s2"
  by (induction ps arbitrary: s) (auto split: option.splits)


lemma finish_held:
  "max_retries (the_writer s) - k = d \<Longrightarrow> queue_inv ops s \<Longrightarrow> i < length (workers s) \<Longrightarrow>
   workers s ! i = Holding ident k \<Longrightarrow>
   \<exists>ps s'. queue_run ops ps s = Some s' \<and> queue_inv ops s' \<and>
     resolved s' = resolved s @ [ident] \<and> pending s' = pending s \<and>
     submitted s' = submitted s \<and> i < length (workers s') \<and> workers s' ! i = Waiting"
proof (induction d arbitrary: s k)
  case 0
  obtain r wr2 w2 where t: "try_operation (ops ident) (the_writer s) (the_world s) = (r, wr2, w2)"
    by (cases "try_operation (ops ident) (the_writer s) (the_world s)")
  have ex: "\<exists>v. r = fst (ops ident v)"
    using try_operation_facts(8) [OF t] by (metis fst_conv)
  have "\<not> k < max_retries (the_writer s)" using 0 by simp
  then have st: "queue_step ops (Attempt i) s = Some (resolve i ident r wr2 w2 s)"
    by (intro attempt_resolves [where ops = ops, OF "0.prems"(3,4) t]) simp
  let ?s = "resolve i ident r wr2 w2 s"
  note f = resolve_inv(1,2,3,7) [OF "0.prems"(2,3,4) ex]
  have "queue_run ops [Attempt i] s = Some ?s" using st by simp
  moreover have "submitted ?s = submitted s" "i < length (workers ?s)"
    using "0.prems"(3) by (simp_all add: resolve_def)
  ultimately show ?case using f by blast
next
  case (Suc d)
  obtain r wr2 w2 where t: "try_operation (ops ident) (the_writer s) (the_world s) = (r, wr2, w2)"
    by (cases "try_operation (ops ident) (the_writer s) (the_world s)")
  have ex: "\<exists>v. r = fst (ops ident v)"
    using try_operation_facts(8) [OF t] by (metis fst_conv)
  have lt: "k < max_retries (the_writer s)" using Suc.prems(1) by simp
  show ?case
  proof (cases "\<exists>e. r = Inl e \<and> retryable e")
    case False
    then have st: "queue_step ops (Attempt i) s = Some (resolve i ident r wr2 w2 s)"
      by (intro attempt_resolves [where ops = ops, OF Suc.prems(3,4) t]) simp
    let ?s = "resolve i ident r wr2 w2 s"
    note f = resolve_inv(1,2,3,7) [OF Suc.prems(2,3,4) ex]
    have "queue_run ops [Attempt i] s = Some ?s" using st by simp
    moreover have "submitted ?s = submitted s" "i < length (workers ?s)"
      using Suc.prems(3) by (simp_all add: resolve_def)
    ultimately show ?thesis using f by blast
  next
    case True
    then obtain e where e: "r = Inl e" "retryable e" by blast
    obtain wr3 w3 where b: "backoff k wr2 w2 = (wr3, w3)" by (cases "backoff k wr2 w2")
    let ?s = "s\<lparr>workers := (workers s)[i := Holding ident (k + 1)], the_writer := wr3, the_world := w3\<rparr>"
    have st: "queue_step ops (Attempt i) s = Some ?s"
      by (rule attempt_retries [where ops = ops, OF Suc.prems(3,4) t [unfolded e(1)] e(2) lt b])
    have m: "max_retries wr3 = max_retries (the_writer s)"
      using try_operation_facts(5) [OF t] backoff_facts(5) [OF b] by simp
    have 1: "max_retries (the_writer ?s) - (k + 1) = d" using Suc.prems(1) m by simp
    have 2: "queue_inv ops ?s" by (rule retry_inv [OF Suc.prems(2,3,4)])
    have 3: "i < length (workers ?s)" "workers ?s ! i = Holding ident (k + 1)"
      using Suc.prems(3) by simp_all
    from Suc.IH [OF 1 2 3] obtain ps s' where
      r: "queue_run ops ps ?s = Some s'" "queue_inv ops s'"
        "resolved s' = resolved ?s @ [ident]" "pending s' = pending ?s"
        "submitted s' = submitted ?s" "i < length (workers s')" "workers s' ! i = Waiting"
      by blast
    have "queue_run ops (Attempt i # ps) s = Some s'" using st r(1) by simp
    then show ?thesis using r(2-7) by (intro exI [of _ "Attempt i # ps"] exI [of _ s']) simp
  qed
qed

lemma drain_waiting:
  "length (pending s) = n \<Longrightarrow> queue_inv ops s \<Longrightarrow> i < length (workers s) \<Longrightarrow>
   workers s ! i = Waiting \<Longrightarrow>
   \<exists>ps s'. queue_run ops ps s = Some s' \<and> queue_inv ops s' \<and>
     submitted s' = submitted s \<and> resolved s' = [0 ..< submitted s]"
proof (induction n arbitrary: s)
  case 0
  have c: "length (filter in_loop (workers s)) = (if queue_worker_running s then 1 else 0)"
    using "0.prems"(2) by (simp add: queue_inv_def)
  have il: "in_loop (workers s ! i)" using "0.prems"(4) by simp
  note w = worker_in_loop [OF c "0.prems"(3) il]
  have "in_flight s = []"
    using only_worker(2) [OF w(2) "0.prems"(3) il] "0.prems"(4) by (simp add: in_flight_def)
  then have "resolved s = [0 ..< submitted s]"
    using "0.prems"(1,2) by (simp add: queue_inv_def)
  moreover have "queue_run ops [] s = Some s" by simp
  ultimately show ?case using "0.prems"(2) by blast
next
  case (Suc n)
  then obtain ident rest where p: "pending s = ident # rest" by (cases "pending s") auto
  let ?s = "s\<lparr>pending := rest, workers := (workers s)[i := Holding ident 0]\<rparr>"
  have st: "queue_step ops (Get i) s = Some ?s" using Suc.prems(3,4) p by simp
  have inv: "queue_inv ops ?s" by (rule get_inv [OF Suc.prems(2) st])
  have h: "i < length (workers ?s)" "workers ?s ! i = Holding ident 0"
    using Suc.prems(3) by simp_all
  from finish_held [OF refl inv h] obtain ps s1 where
    r: "queue_run ops ps ?s = Some s1" "queue_inv ops s1" "pending s1 = pending ?s"
      "submitted s1 = submitted ?s" "i < length (workers s1)" "workers s1 ! i = Waiting"
    by blast
  have "length (pending s1) = n" using r(3) Suc.prems(1) p by simp
  from Suc.IH [OF this r(2,5,6)] obtain qs s' where
    q: "queue_run ops qs s1 = Some s'" "queue_inv ops s'" "submitted s' = submitted s1"
       "resolved s' = [0 ..< submitted s1]"
    by blast
  have "queue_run ops (Get i # ps) s = Some s1" using st r(1) by simp
  from queue_run_append [OF this q(1)] q(2,3,4) r(4)
  show ?case by (intro exI [of _ "(Get i # ps) @ qs"] exI [of _ s']) simp
qed

lemma drain:
  assumes "queue_inv ops s"
  shows "\<exists>ps s'. queue_run ops ps s = Some s' \<and> queue_inv ops s' \<and>
     submitted s' = submitted s \<and> resolved s' = [0 ..< submitted s]"
proof -
  have c: "length (filter in_loop (workers s)) = (if queue_worker_running s then 1 else 0)"
    using assms by (simp add: queue_inv_def)
  consider (running) "queue_worker_running s" | (empty) "\<not> queue_worker_running s" "submitted s = 0"
    | (created) "\<not> queue_worker_running s" "Created \<in> set (workers s)"
    using assms by (auto simp: queue_inv_def)
  then show ?thesis
  proof cases
    case running
    then have "filter in_loop (workers s) \<noteq> []" using c by auto
    then obtain x where "x \<in> set (workers s)" "in_loop x"
      by (metis filter_False)
    then obtain i where i: "i < length (workers s)" "in_loop (workers s ! i)"
      by (metis in_set_conv_nth)
    show ?thesis
    proof (cases "workers s ! i")
      case Waiting
      from drain_waiting [OF refl assms i(1) Waiting] show ?thesis .
    next
      case (Holding ident k)
      from finish_held [OF refl assms i(1) Holding] obtain ps s1 where
        r: "queue_run ops ps s = Some s1" "queue_inv ops s1" "submitted s1 = submitted s"
          "i < length (workers s1)" "workers s1 ! i = Waiting"
        by blast
      from drain_waiting [OF refl r(2,4,5)] obtain qs s' where
        q: "queue_run ops qs s1 = Some s'" "queue_inv ops s'" "submitted s' = submitted s1"
           "resolved s' = [0 ..< submitted s1]"
        by blast
      from queue_run_append [OF r(1) q(1)] q(2,3,4) r(3)
      show ?thesis by (intro exI [of _ "ps @ qs"] exI [of _ s']) simp
    qed (use i(2) in simp_all)
  next
    case empty
    have "in_flight s = []" using c empty(1) by (simp add: in_flight_def no_worker)
    then have "resolved s = [0 ..< submitted s]" using assms empty(2) by (simp add: queue_inv_def)
    moreover have "queue_run ops [] s = Some s" by simp
    ultimately show ?thesis using assms by blast
  next
    case created
    then obtain i where i: "i < length (workers s)" "workers s ! i = Created"
      by (metis in_set_conv_nth)
    let ?s = "s\<lparr>queue_worker_running := True, workers := (workers s)[i := Waiting]\<rparr>"
    have st: "queue_step ops (Start i) s = Some ?s" using i created(1) by simp
    have inv: "queue_inv ops ?s" by (rule start_inv [OF assms st])
    have "i < length (workers ?s)" "workers ?s ! i = Waiting" using i(1) by simp_all
    from drain_waiting [OF refl inv this] obtain qs s' where
      q: "queue_run ops qs ?s = Some s'" "queue_inv ops s'" "submitted s' = submitted ?s"
         "resolved s' = [0 ..< submitted ?s]"
      by blast
    have "queue_run ops (Start i # qs) s = Some s'" using st q(1) by simp
    then show ?thesis using q(2,3,4) by (intro exI [of _ "Start i # qs"] exI [of _ s']) simp
  qed
qed


text \<open>
  Claim C3. In every state the tasks can reach from the start, whatever the operations
  and however the event loop orders the pieces: at most one task is inside the worker
  loop and at most one submitted operation is being executed; the futures resolved so
  far, the submission in execution and the queue, in this order, are the submissions
  in the order they were made, so operations are taken and their futures resolved first
  in, first out; the resolved futures are exactly the ones listed, and each holds what an
  invocation of its own operation returned or raised; and the worker can always go on
  until every submission made so far is resolved, in submission order.
\<close>

theorem operation_queue_serial:
  assumes "queue_run ops ps (start_state wr w) = Some s"
  shows "length (in_flight s) \<le> 1 \<and> length (filter in_loop (workers s)) \<le> 1 \<and>
         resolved s @ in_flight s @ pending s = [0 ..< submitted s] \<and>
         dom (futures s) = set (resolved s) \<and>
         (\<forall>ident r. futures s ident = Some r \<longrightarrow> (\<exists>v. r = fst (ops ident v))) \<and>
         (\<exists>qs s'. queue_run ops qs s = Some s' \<and> submitted s' = submitted s \<and>
            resolved s' = [0 ..< submitted s] \<and> dom (futures s') = {0 ..< submitted s})"
proof -
  have inv: "queue_inv ops s" by (rule queue_run_inv [OF start_state_inv assms])
  then have c: "length (filter in_loop (workers s)) = (if queue_worker_running s then 1 else 0)"
    by (simp add: queue_inv_def)
  then have 1: "length (filter in_loop (workers s)) \<le> 1" by simp
  have 2: "length (in_flight s) \<le> 1"
  proof (cases "queue_worker_running s")
    case False
    then show ?thesis using c by (simp add: in_flight_def no_worker)
  next
    case True
    then have one: "length (filter in_loop (workers s)) = 1" using c by simp
    then have "filter in_loop (workers s) \<noteq> []" by auto
    then obtain x where "x \<in> set (workers s)" "in_loop x" by (metis filter_False)
    then obtain i where i: "i < length (workers s)" "in_loop (workers s ! i)"
      by (metis in_set_conv_nth)
    have "in_flight s = holding (workers s ! i)"
      using only_worker(2) [OF one i] by (simp add: in_flight_def)
    then show ?thesis by (cases "workers s ! i") simp_all
  qed
  from drain [OF inv] obtain qs s' where
    d: "queue_run ops qs s = Some s'" "queue_inv ops s'" "submitted s' = submitted s"
       "resolved s' = [0 ..< submitted s]"
    by blast
  have "dom (futures s') = {0 ..< submitted s}" using d(2,4) by (simp add: queue_inv_def)
  then have 3: "\<exists>qs s'. queue_run ops qs s = Some s' \<and> submitted s' = submitted s \<and>
            resolved s' = [0 ..< submitted s] \<and> dom (futures s') = {0 ..< submitted s}"
    using d by blast
  show ?thesis using inv 1 2 3 unfolding queue_inv_def by blast
qed



theorem operation_queue_serial_witness:
  "(case queue_run sample_operations sample_schedule (start_state (init_writer True) \<lparr>clock = 0\<rparr>) of
      None \<Rightarrow> False
    | Some s \<Rightarrow>
        resolved s = [0, 1] \<and> workers s = [Waiting, Quit] \<and> pending s = [] \<and>
        in_flight s = [] \<and>
        futures s 0 = Some (Inl (HttpError 400)) \<and> futures s 1 = Some (Inr ()) \<and>
        dom (futures s) = {0, 1})"
proof -
  let ?run = "queue_run sample_operations sample_schedule (start_state (init_writer True) \<lparr>clock = 0\<rparr>)"
  have e: "(case ?run of
      None \<Rightarrow> False
    | Some s \<Rightarrow>
        resolved s = [0, 1] \<and> workers s = [Waiting, Quit] \<and> pending s = [] \<and>
        in_flight s = [] \<and>
        futures s 0 = Some (Inl (HttpError 400)) \<and> futures s 1 = Some (Inr ()))"
    by code_simp
  obtain s where s: "?run = Some s" using e by (cases ?run) simp_all
  have r: "resolved s = [0, 1]" using e unfolding s by simp
  have "dom (futures s) = set (resolved s)" using operation_queue_serial [OF s] by blast
  then have "dom (futures s) = {0, 1}" unfolding r by simp
  then show ?thesis using e unfolding s by simp
qed

end
